theory Spec2Isabelle
  imports Main "HOL-Library.Word"
begin

unbundle bit_operations_syntax

section \<open>Common runtime model\<close>

text \<open>
  Go's run-time panics are values of their own: an index or slice bound out of range,
  an integer division by zero, a negative shift count, \<open>make\<close> with a negative length,
  and \<open>panic(err)\<close> on a failed buffer read. A function that may panic returns
  \<open>panic + 'a\<close>, with \<open>Inl\<close> the panic.

  Go's \<open>int\<close> has 64 bits and its arithmetic wraps around. It is modelled by \<open>int\<close>, and
  the wrap-around is written out, with \<open>int64\<close>, where a product is formed from the
  parameters of a call: in \<open>NewRSis\<close>. The products that \<open>Sum\<close> forms from the fields of
  an instance stay below \<open>2 ^ 63\<close> on every instance that \<open>NewRSis\<close> builds
  (\<open>NbBytesToSum\<close> is an eighth of a 64-bit value, and the key of \<open>Degree * keySize\<close>
  field elements is held in memory); they are written without it.
\<close>

datatype panic = IndexOutOfRange | DivideByZero | NegativeShift | NegativeLen | PanicEOF

type_synonym byte = "8 word"

text \<open>The value of a 64-bit signed integer after wrap-around.\<close>

definition int64 :: "int \<Rightarrow> int" where
  "int64 x = sint (word_of_int x :: 64 word)"

text \<open>Go's \<open>/\<close> and \<open>%\<close> on integers truncate towards zero.\<close>

definition go_quo :: "int \<Rightarrow> int \<Rightarrow> int" where
  "go_quo a b = sgn a * sgn b * (\<bar>a\<bar> div \<bar>b\<bar>)"

definition go_rem :: "int \<Rightarrow> int \<Rightarrow> int" where
  "go_rem a b = a - b * go_quo a b"

text \<open>The builtin \<open>copy(dst, src)\<close>: the first \<open>min (len dst) (len src)\<close> elements of
  \<open>dst\<close> are overwritten.\<close>

definition go_copy :: "'a list \<Rightarrow> 'a list \<Rightarrow> 'a list" where
  "go_copy dst src = take (length dst) src @ drop (length src) dst"

text \<open>A transformation that works in place on a slice: the slice keeps its length and
  receives the values the transformation delivers.\<close>

definition in_place :: "('a list \<Rightarrow> 'a list) \<Rightarrow> 'a list \<Rightarrow> 'a list" where
  "in_place f xs = go_copy xs (f xs)"

section \<open>Ring-SIS hash (package sis, over the scalar field of BN254)\<close>

subsection \<open>The field \<open>fr\<close>\<close>

text \<open>
  The package imports \<open>ecc/bn254/fr\<close>. An element is modelled by its canonical
  representative below the modulus. The modulus is the one under which the expected
  values of \<open>TestMulMod\<close> hold; \<open>Bytes()\<close> returns a fixed array of 32 bytes
  (\<open>TestRSis\<close> cuts the digest into pieces of 32 bytes).
\<close>

type_synonym fr = nat

definition fr_Modulus :: nat where
  "fr_Modulus = 21888242871839275222246405745257275088548364400416034343698204186575808495617"

definition fr_Bytes_len :: nat where
  "fr_Bytes_len = 32"

fun BitLen :: "nat \<Rightarrow> nat" where
  "BitLen n = (if n = 0 then 0 else Suc (BitLen (n div 2)))"

declare BitLen.simps [simp del]

definition be_nat :: "byte list \<Rightarrow> nat" where
  "be_nat bs = foldl (\<lambda>a b. a * 256 + unat b) 0 bs"

definition fr_SetBytes :: "byte list \<Rightarrow> fr" where
  "fr_SetBytes bs = be_nat bs mod fr_Modulus"

definition fr_Bytes :: "fr \<Rightarrow> byte list" where
  "fr_Bytes x = map (\<lambda>i. of_nat (x div 256 ^ (fr_Bytes_len - 1 - i))) [0..<fr_Bytes_len]"

definition fr_Mul :: "fr \<Rightarrow> fr \<Rightarrow> fr" where
  "fr_Mul x y = (x * y) mod fr_Modulus"

definition fr_Add :: "fr \<Rightarrow> fr \<Rightarrow> fr" where
  "fr_Add x y = (x + y) mod fr_Modulus"

definition fr_Exp :: "fr \<Rightarrow> nat \<Rightarrow> fr" where
  "fr_Exp x e = (x ^ e) mod fr_Modulus"

subsection \<open>Collaborators outside the package\<close>

text \<open>
  The NTT domain of package \<open>fft\<close> and BLAKE2b are not part of the sources at hand;
  they are parameters of the model. \<open>FFT\<close> stands for \<open>Domain.FFT(_, fft.DIF, true)\<close>
  and \<open>FFTInverse\<close> for \<open>Domain.FFTInverse(_, fft.DIT, true)\<close>.
\<close>

text \<open>
  Modelled from the spec: the type \<open>fft.Domain\<close> and its constructor are missing from the
  sources. ``NTT domain \<open>D(n, shift)\<close>. Parameters: \<open>n\<close> a power of two, \<open>shift\<close> a field
  element (the coset generator); \<open>D.Cardinality = n\<close>.''
\<close>

record fft_Domain =
  Cardinality :: nat
  FrMultiplicativeGen :: fr

record sis_services =
  blake2b_Sum256 :: "byte list \<Rightarrow> byte list"
  FFT :: "fft_Domain \<Rightarrow> fr list \<Rightarrow> fr list"
  FFTInverse :: "fft_Domain \<Rightarrow> fr list \<Rightarrow> fr list"

definition NewDomain :: "nat \<Rightarrow> fr \<Rightarrow> fft_Domain" where
  "NewDomain m shift = \<lparr>Cardinality = m, FrMultiplicativeGen = shift\<rparr>"

subsection \<open>The instance\<close>

datatype sis_error = ErrNotAPowerOfTwo

record RSis =
  buffer :: "byte list"
  A :: "fr list list"
  AfftCosetBitreversed :: "fr list list"
  LogTwoBound :: int
  NbBytesToSum :: int
  Domain :: fft_Domain
  Degree :: int

text \<open>\<open>binary.Write(&buf, binary.BigEndian, x)\<close> for an \<open>int64\<close>: eight bytes, the most
  significant first, in two's complement.\<close>

definition BE64 :: "int \<Rightarrow> byte list" where
  "BE64 x = map (\<lambda>k. of_int (x div 256 ^ (7 - k))) [0..<8]"

definition genRandom :: "sis_services \<Rightarrow> int \<Rightarrow> int \<Rightarrow> int \<Rightarrow> fr" where
  "genRandom X seed i j =
     fr_SetBytes (blake2b_Sum256 X ([0x53, 0x49, 0x53] @ BE64 seed @ BE64 i @ BE64 j))"

text \<open>The constant of \<open>NewRSis\<close>, a \<open>2^28\<close>-th root of unity.\<close>

definition rootOfUnity28 :: fr where
  "rootOfUnity28 = 19103219067921713944291392827692070036145651957329286315305642004821462161904"

text \<open>
  \<open>NewRSis\<close>. The two shifts \<open>1 << (28 - (logTwoDegree + 1))\<close> and \<open>1 << logTwoDegree\<close>
  panic on a negative count, and \<open>make\<close> on a negative \<open>keySize\<close>. The loop that fills
  \<open>AfftCosetBitreversed[i]\<close> copies \<open>A[i]\<close> and transforms the copy once for every
  \<open>j < degree\<close>. The product \<open>res.LogTwoBound * degree * len(res.A)\<close> is formed from the left
  and wraps around at 64 bits. No path returns an error.
\<close>

definition NewRSis :: "sis_services \<Rightarrow> int \<Rightarrow> int \<Rightarrow> int \<Rightarrow> int \<Rightarrow> panic + (RSis \<times> sis_error option)" where
  "NewRSis X seed logTwoDegree logTwoBound keySize =
     (if 28 - (logTwoDegree + 1) < 0 then Inl NegativeShift
      else if logTwoDegree < 0 then Inl NegativeShift
      else if keySize < 0 then Inl NegativeLen
      else
        let e = (2::nat) ^ nat (28 - (logTwoDegree + 1));
            shift = fr_Exp rootOfUnity28 e;
            degree = (2::nat) ^ nat logTwoDegree;
            dom = NewDomain degree shift;
            a = map (\<lambda>i. map (\<lambda>j. genRandom X seed (int i) (int j)) [0..<degree]) [0..<nat keySize];
            ahat = map (\<lambda>i. foldl (\<lambda>row j. in_place (FFT X dom) (go_copy row (a ! i)))
                                  (replicate degree 0) [0..<degree]) [0..<nat keySize]
        in Inr (\<lparr>buffer = [], A = a, AfftCosetBitreversed = ahat,
                 LogTwoBound = logTwoBound,
                 NbBytesToSum =
                   go_quo (int64 (int64 (logTwoBound * int degree) * int (length a))) 8,
                 Domain = dom, Degree = int degree\<rparr>, None))"

text \<open>The methods have a pointer receiver: they return the instance as they leave it.\<close>

definition Write :: "RSis \<Rightarrow> byte list \<Rightarrow> RSis \<times> nat \<times> sis_error option" where
  "Write r p = (r\<lparr>buffer := buffer r @ p\<rparr>, length p, None)"

definition Reset :: "RSis \<Rightarrow> RSis" where
  "Reset r = r\<lparr>buffer := []\<rparr>"

text \<open>\<open>Size\<close>: \<open>len(r.A[0]) * fr.Modulus().BitLen() / 8\<close>, the product first; \<open>r.A[0]\<close> is out
  of range for an empty key.\<close>

definition Size :: "RSis \<Rightarrow> panic + int" where
  "Size r = (case A r of [] \<Rightarrow> Inl IndexOutOfRange
             | a0 # _ \<Rightarrow> Inr (go_quo (int (length a0) * int (BitLen fr_Modulus)) 8))"

definition BlockSize :: "RSis \<Rightarrow> int" where
  "BlockSize r = 0"

subsection \<open>Sum\<close>

text \<open>
  The inner loop \<open>for j := 0; j < 8; j++ { mBits[i*8+j] = (tmp[0] >> (7 - j)) & 1 }\<close>.
\<close>

definition unpack_byte :: "byte list \<Rightarrow> nat \<Rightarrow> byte \<Rightarrow> byte list" where
  "unpack_byte mBits i tmp =
     foldl (\<lambda>mb j. mb[i * 8 + j := (drop_bit (7 - j) tmp) AND 1]) mBits [0..<8]"

text \<open>
  The loop \<open>for i := 0; i < r.NbBytesToSum; i++\<close>: one byte is read from the buffer
  (\<open>bytes.Buffer.Read\<close> fails with \<open>io.EOF\<close> on an empty buffer, and the code panics on
  it) and unpacked. The result is the buffer that remains and the bit array.
\<close>

function read_loop :: "nat \<Rightarrow> nat \<Rightarrow> byte list \<Rightarrow> byte list \<Rightarrow> panic + (byte list \<times> byte list)" where
  "read_loop i n buf mBits =
     (if i < n then
        (case buf of
           [] \<Rightarrow> Inl PanicEOF
         | tmp # rest \<Rightarrow> read_loop (Suc i) n rest (unpack_byte mBits i tmp))
      else Inr (buf, mBits))"
  by pat_completeness auto
termination
  by (relation "measure (\<lambda>(i, n, buf, mBits). n - i)") auto

declare read_loop.simps [simp del]

text \<open>
  One coefficient: the two loops that fill \<open>buf\<close> from the bits of coefficient \<open>i\<close>.
  \<open>buf\<close> is all zero when they start (it is allocated so, and the last loop of every
  iteration zeroes it again). The additions are additions of bytes.
\<close>

definition fill_buf :: "byte list \<Rightarrow> nat \<Rightarrow> nat \<Rightarrow> nat \<Rightarrow> nat \<Rightarrow> byte list" where
  "fill_buf mBits i nbBitsPerCoefficients offset nbBytesPerCoefficients =
     (let buf0 = replicate (nbBytesPerCoefficients + 1) (0::byte);
          buf1 = foldl (\<lambda>buf j.
                    buf[0 := buf ! 0 + push_bit (offset - 1 - j) (mBits ! (i * nbBitsPerCoefficients + j))])
                  buf0 [0..<offset]
      in foldl (\<lambda>buf j.
           foldl (\<lambda>buf k.
               buf[j + 1 := buf ! (j + 1)
                    + push_bit (7 - k) (mBits ! (i * nbBitsPerCoefficients + offset + 8 * j + k))])
             buf [0..<8])
         buf1 [0..<nbBytesPerCoefficients])"

text \<open>
  The loop \<open>for i := 0; i < totalNbBits/nbBitsPerCoefficients; i++\<close>; \<open>m[i]\<close> is out of
  range when \<open>m\<close> is shorter than the number of coefficients the bits hold.
\<close>

function coeff_loop :: "byte list \<Rightarrow> nat \<Rightarrow> nat \<Rightarrow> nat \<Rightarrow> nat \<Rightarrow> nat \<Rightarrow> fr list \<Rightarrow> panic + fr list" where
  "coeff_loop mBits nbBits offset nbBytes i cnt m =
     (if i < cnt then
        (if i < length m
         then coeff_loop mBits nbBits offset nbBytes (Suc i) cnt
                (m[i := fr_SetBytes (fill_buf mBits i nbBits offset nbBytes)])
         else Inl IndexOutOfRange)
      else Inr m)"
  by pat_completeness auto
termination
  by (relation "measure (\<lambda>(mBits, nbBits, offset, nbBytes, i, cnt, m). cnt - i)") auto

declare coeff_loop.simps [simp del]

text \<open>
  The buffer after the padding at the start of \<open>Sum\<close>: when fewer than \<open>NbBytesToSum\<close>
  bytes are buffered, zero bytes are written up to that size.
\<close>

definition padded_buffer :: "RSis \<Rightarrow> byte list" where
  "padded_buffer r =
     (if int (length (buffer r)) < NbBytesToSum r
      then buffer r @ replicate (nat (NbBytesToSum r - int (length (buffer r)))) 0
      else buffer r)"

text \<open>
  The first half of \<open>Sum\<close>, up to the vector \<open>m\<close> to hash: padding of the buffer,
  reading of \<open>NbBytesToSum\<close> bytes, decomposition into bits, assembly of the
  coefficients. It returns the buffer that remains and \<open>m\<close>.
\<close>

definition assemble :: "RSis \<Rightarrow> panic + (byte list \<times> fr list)" where
  "assemble r =
     (let totalNbBits = NbBytesToSum r * 8
      in if totalNbBits < 0 then Inl NegativeLen
         else case read_loop 0 (nat (NbBytesToSum r)) (padded_buffer r)
                     (replicate (nat totalNbBits) 0) of
           Inl p \<Rightarrow> Inl p
         | Inr (rest, mBits) \<Rightarrow>
             (let nbBytesPerCoefficients = go_quo (LogTwoBound r - go_rem (LogTwoBound r) 8) 8;
                  nbBitsPerCoefficients = LogTwoBound r;
                  offset = go_rem nbBitsPerCoefficients 8;
                  sizeM = Degree r * int (length (A r))
              in if nbBytesPerCoefficients + 1 < 0 then Inl NegativeLen
                 else if sizeM < 0 then Inl NegativeLen
                 else if nbBitsPerCoefficients = 0 then Inl DivideByZero
                 else case coeff_loop mBits (nat nbBitsPerCoefficients) (nat offset)
                             (nat nbBytesPerCoefficients) 0
                             (nat (go_quo totalNbBits nbBitsPerCoefficients))
                             (replicate (nat sizeM) 0) of
                   Inl p \<Rightarrow> Inl p
                 | Inr m \<Rightarrow> Inr (rest, m)))"

text \<open>
  \<open>MulMod\<close>: the pointwise product; \<open>q[i]\<close> is out of range when \<open>q\<close> is shorter than
  \<open>p\<close>.
\<close>

definition MulMod :: "fr list \<Rightarrow> fr list \<Rightarrow> panic + fr list" where
  "MulMod p q =
     (if length p \<le> length q
      then Inr (map (\<lambda>i. fr_Mul (p ! i) (q ! i)) [0..<length p])
      else Inl IndexOutOfRange)"

text \<open>
  The loop over the key: the \<open>i\<close>-th chunk of \<open>m\<close> (a slice expression, out of range when
  \<open>m\<close> is too short) is transformed in place, multiplied with the \<open>i\<close>-th row of the key and
  added to \<open>res\<close>. The chunks are disjoint, so the transformed chunk is not written back
  into \<open>m\<close> here.
\<close>

function hash_loop :: "sis_services \<Rightarrow> RSis \<Rightarrow> nat \<Rightarrow> fr list \<Rightarrow> fr list \<Rightarrow> panic + fr list" where
  "hash_loop X r i m res =
     (if i < length (AfftCosetBitreversed r) then
        (let d = nat (Degree r) in
         if length m < (i + 1) * d then Inl IndexOutOfRange
         else
           case MulMod (AfftCosetBitreversed r ! i)
                  (in_place (FFT X (Domain r)) (take d (drop (i * d) m))) of
             Inl p \<Rightarrow> Inl p
           | Inr t \<Rightarrow>
               if length res \<le> length t
               then hash_loop X r (Suc i) m (map (\<lambda>j. fr_Add (res ! j) (t ! j)) [0..<length res])
               else Inl IndexOutOfRange)
      else Inr res)"
  by pat_completeness auto
termination
  by (relation "measure (\<lambda>(X, r, i, m, res). length (AfftCosetBitreversed r) - i)") auto

declare hash_loop.simps [simp del]

text \<open>
  \<open>Sum\<close> returns the instance, whose buffer has been read, and \<open>b\<close> with the digest
  appended.
\<close>

definition Sum :: "sis_services \<Rightarrow> RSis \<Rightarrow> byte list \<Rightarrow> panic + (RSis \<times> byte list)" where
  "Sum X r b =
     (case assemble r of
        Inl p \<Rightarrow> Inl p
      | Inr (rest, m) \<Rightarrow>
          if Degree r < 0 then Inl NegativeLen
          else
            (case hash_loop X r 0 m (replicate (nat (Degree r)) 0) of
               Inl p \<Rightarrow> Inl p
             | Inr res \<Rightarrow>
                 (let res' = in_place (FFTInverse X (Domain r)) res in
                  if res' = [] then Inl IndexOutOfRange
                  else
                    (let sizeFrElmt = length (fr_Bytes (res' ! 0));
                         resBytes = concat (map (\<lambda>i. go_copy (replicate sizeFrElmt 0) (fr_Bytes (res' ! i)))
                                              [0..<nat (Degree r)])
                     in Inr (r\<lparr>buffer := rest\<rparr>, b @ resBytes)))))"

text \<open>
  The invariants of an instance that \<open>NewRSis\<close> builds with a bound of at least one bit:
  the key and its transform have \<open>keySize\<close> rows of \<open>Degree\<close> entries, and
  \<open>NbBytesToSum\<close> is \<open>LogTwoBound * Degree * keySize / 8\<close>.
\<close>

definition well_formed :: "RSis \<Rightarrow> bool" where
  "well_formed r \<longleftrightarrow>
     1 \<le> LogTwoBound r \<and> 1 \<le> Degree r
     \<and> length (AfftCosetBitreversed r) = length (A r)
     \<and> (\<forall>row \<in> set (A r). int (length row) = Degree r)
     \<and> (\<forall>row \<in> set (AfftCosetBitreversed r). int (length row) = Degree r)
     \<and> NbBytesToSum r = (LogTwoBound r * Degree r * int (length (A r))) div 8"

text \<open>
  A fixed choice of the collaborators, for evaluating the model at concrete inputs: a
  constant in place of the BLAKE2b digest, and the identity in place of the two
  transforms (which is what they are on a domain of cardinality one).
\<close>

definition unit_services :: sis_services where
  "unit_services = \<lparr>blake2b_Sum256 = (\<lambda>_. [1]), FFT = (\<lambda>_ xs. xs), FFTInverse = (\<lambda>_ xs. xs)\<rparr>"

section \<open>Multi-column lookup (package plookup, over the scalar field of BW6-761)\<close>

subsection \<open>Collaborators outside the file\<close>

text \<open>
  \<open>ProveLookupTables\<close> and \<open>VerifyLookupTables\<close> call the field \<open>fr\<close>, the NTT domain,
  the KZG commitment, the Fiat-Shamir transcript and the single-column lookup, none of
  which is among the sources at hand. The field enters as a commutative ring \<open>'f\<close>
  (\<open>Mul\<close>, \<open>Add\<close> and the zero value of \<open>fr.Element\<close>); everything else is a parameter
  of the model, collected in one record. A Go function that returns a value with an
  \<open>error\<close> returns a pair here, \<open>None\<close> for \<open>nil\<close>. Errors that the collaborators
  return are values of a type \<open>'e\<close> of their own, apart from the two errors this file
  declares.
\<close>

datatype 'e error = ErrIncompatibleSize | ErrFoldedCommitment | Upstream 'e

record ('f, 'g, 'srs, 'pv, 'ts, 'e) plookup_services =
  zero_Digest :: 'g
  zero_ProofLookupVector :: 'pv
  Commit :: "'f list \<Rightarrow> 'srs \<Rightarrow> 'g \<times> 'e option"
  FFTInverse_DIF :: "nat \<Rightarrow> 'f list \<Rightarrow> 'f list"
  BitReverse :: "'f list \<Rightarrow> 'f list"
  NewTranscript :: "string \<Rightarrow> 'ts"
  Bind :: "'ts \<Rightarrow> string \<Rightarrow> byte list \<Rightarrow> 'ts \<times> 'e option"
  ComputeChallenge :: "'ts \<Rightarrow> string \<Rightarrow> byte list \<times> 'e option"
  RawBytes :: "'g \<Rightarrow> byte list"
  SetBytes :: "byte list \<Rightarrow> 'f"
  ToBigIntRegular :: "'f \<Rightarrow> int"
  ScalarMultiplication :: "'g \<Rightarrow> int \<Rightarrow> 'g"
  Add :: "'g \<Rightarrow> 'g \<Rightarrow> 'g"
  ProveLookupVector :: "'srs \<Rightarrow> 'f list \<Rightarrow> 'f list \<Rightarrow> 'pv \<times> 'e option"
  VerifyLookupVector :: "'srs \<Rightarrow> 'pv \<Rightarrow> 'e option"
  proof_f :: "'pv \<Rightarrow> 'g"

text \<open>
  Modelled from the spec: the constructor \<open>fft.NewDomain\<close> is missing from the sources.
  ``Choose the smallest power-of-two domain \<open>D\<close> with \<open>D.Cardinality \<ge> target\<close>'': the
  cardinality is found by doubling, starting from one.
\<close>

function next_power_of_two :: "nat \<Rightarrow> nat \<Rightarrow> nat" where
  "next_power_of_two p m = (if 0 < p \<and> p < m then next_power_of_two (2 * p) m else p)"
  by pat_completeness auto
termination
  by (relation "measure (\<lambda>(p, m). m - p)") auto

declare next_power_of_two.simps [simp del]

definition domain_Cardinality :: "nat \<Rightarrow> nat" where
  "domain_Cardinality m = next_power_of_two 1 m"

subsection \<open>The proof and the prover\<close>

record ('g, 'pv) ProofLookupTables =
  fs :: "'g list"
  foldedProof :: 'pv

text \<open>
  The two size loops \<open>for i := 1; i < len(f); i++ { if len(f[i]) != s { return ... } }\<close>,
  run over the rows from index 1 on.
\<close>

primrec rows_differ :: "nat \<Rightarrow> 'a list list \<Rightarrow> bool" where
  "rows_differ s [] = False"
| "rows_differ s (row # rows) = (if length row \<noteq> s then True else rows_differ s rows)"

text \<open>
  The padding loop \<open>for j := len(f[i]); j < int(nbColumns); j++ { cfs[i][j] = f[i][len(f[i])-1] }\<close>:
  the index \<open>len(f[i])-1\<close> is out of range for an empty row. \<open>cfs[i]\<close> and \<open>lfs[i]\<close> receive the
  same writes, so one vector stands for both.
\<close>

function pad_loop :: "'a list \<Rightarrow> nat \<Rightarrow> nat \<Rightarrow> 'a list \<Rightarrow> panic + 'a list" where
  "pad_loop src j n dst =
     (if j < n then
        (if src = [] then Inl IndexOutOfRange
         else pad_loop src (Suc j) n (dst[j := src ! (length src - 1)]))
      else Inr dst)"
  by pat_completeness auto
termination
  by (relation "measure (\<lambda>(src, j, n, dst). n - j)") auto

declare pad_loop.simps [simp del]

definition pad_row :: "nat \<Rightarrow> 'a::zero list \<Rightarrow> panic + 'a list" where
  "pad_row nbColumns row = pad_loop row (length row) nbColumns (go_copy (replicate nbColumns 0) row)"

text \<open>
  The coefficient form that is committed: \<open>d.FFTInverse(cfs[i], fft.DIF, 0)\<close> and
  \<open>fft.BitReverse(cfs[i])\<close>, both in place.
\<close>

definition coefficient_form ::
  "('f, 'g, 'srs, 'pv, 'ts, 'e) plookup_services \<Rightarrow> nat \<Rightarrow> 'f list \<Rightarrow> 'f list" where
  "coefficient_form X nbColumns row = in_place (BitReverse X) (in_place (FFTInverse_DIF X nbColumns) row)"

text \<open>
  The state of the loop over the rows: the commitments \<open>proof.fs\<close>, the padded rows
  \<open>lfs\<close> and \<open>lts\<close>, and the vectors that have been handed to \<open>kzg.Commit\<close> so far.
\<close>

record ('f, 'g) rows_state =
  st_fs :: "'g list"
  st_lfs :: "'f list list"
  st_lts :: "'f list list"
  st_committed :: "'f list list"

function rows_loop ::
  "('f::zero, 'g, 'srs, 'pv, 'ts, 'e) plookup_services \<Rightarrow> 'srs \<Rightarrow> nat \<Rightarrow> 'f list list \<Rightarrow> 'f list list
     \<Rightarrow> nat \<Rightarrow> nat \<Rightarrow> ('f, 'g) rows_state \<Rightarrow> panic + ('e option \<times> ('f, 'g) rows_state)" where
  "rows_loop X srs nbColumns f t i nbRows st =
     (if i < nbRows then
        (case pad_row nbColumns (f ! i) of
           Inl p \<Rightarrow> Inl p
         | Inr lfs_i \<Rightarrow>
             (let cfs_i = coefficient_form X nbColumns lfs_i;
                  st1 = st\<lparr>st_fs := (st_fs st)[i := fst (Commit X cfs_i srs)],
                           st_lfs := (st_lfs st)[i := lfs_i],
                           st_committed := st_committed st @ [cfs_i]\<rparr>
              in case snd (Commit X cfs_i srs) of
                   Some e \<Rightarrow> Inr (Some e, st1)
                 | None \<Rightarrow>
                     (case pad_row nbColumns (t ! i) of
                        Inl p \<Rightarrow> Inl p
                      | Inr lts_i \<Rightarrow>
                          rows_loop X srs nbColumns f t (Suc i) nbRows
                            (st1\<lparr>st_lts := (st_lts st1)[i := lts_i]\<rparr>))))
      else Inr (None, st))"
  by pat_completeness auto
termination
  by (relation "measure (\<lambda>(X, srs, nbColumns, f, t, i, nbRows, st). nbRows - i)") auto

declare rows_loop.simps [simp del]

text \<open>\<open>deriveRandomness\<close>: every point is bound to the challenge, then the challenge is
  computed and read as a field element.\<close>

fun bind_points ::
  "('f, 'g, 'srs, 'pv, 'ts, 'e) plookup_services \<Rightarrow> 'ts \<Rightarrow> string \<Rightarrow> 'g list \<Rightarrow> 'ts \<times> 'e option" where
  "bind_points X ts challenge [] = (ts, None)"
| "bind_points X ts challenge (p # points) =
     (case Bind X ts challenge (RawBytes X p) of
        (ts', Some e) \<Rightarrow> (ts', Some e)
      | (ts', None) \<Rightarrow> bind_points X ts' challenge points)"

definition deriveRandomness ::
  "('f::zero, 'g, 'srs, 'pv, 'ts, 'e) plookup_services \<Rightarrow> 'ts \<Rightarrow> string \<Rightarrow> 'g list \<Rightarrow> 'f \<times> 'e option" where
  "deriveRandomness X ts challenge points =
     (case bind_points X ts challenge points of
        (ts', Some e) \<Rightarrow> (0, Some e)
      | (ts', None) \<Rightarrow>
          (case ComputeChallenge X ts' challenge of
             (b, Some e) \<Rightarrow> (0, Some e)
           | (b, None) \<Rightarrow> (SetBytes X b, None)))"

text \<open>
  The folding loops: for every column \<open>i\<close>, the rows are taken from the last to the
  first, \<open>foldedf[i] = foldedf[i] * lambda + lfs[j][i]\<close> and the same for \<open>foldedt\<close>. The
  counter of \<open>fold_inner\<close> is \<open>j + 1\<close>.
\<close>

fun fold_inner ::
  "'f::comm_ring_1 \<Rightarrow> 'f list list \<Rightarrow> 'f list list \<Rightarrow> nat \<Rightarrow> nat \<Rightarrow> 'f list \<times> 'f list \<Rightarrow> 'f list \<times> 'f list" where
  "fold_inner lambda lfs lts i 0 (foldedf, foldedt) = (foldedf, foldedt)"
| "fold_inner lambda lfs lts i (Suc j) (foldedf, foldedt) =
     fold_inner lambda lfs lts i j
       (foldedf[i := foldedf ! i * lambda + lfs ! j ! i],
        foldedt[i := foldedt ! i * lambda + lts ! j ! i])"

definition fold_tables ::
  "'f::comm_ring_1 \<Rightarrow> nat \<Rightarrow> nat \<Rightarrow> 'f list list \<Rightarrow> 'f list list \<Rightarrow> 'f list \<times> 'f list" where
  "fold_tables lambda nbColumns nbRows lfs lts =
     foldl (\<lambda>folded i. fold_inner lambda lfs lts i nbRows folded)
       (replicate nbColumns 0, replicate nbColumns 0) [0..<nbColumns]"

text \<open>
  \<open>ProveLookupTables\<close> returns the proof, the error and, as a record of the work done,
  the vectors that were committed.
\<close>

definition ProveLookupTables ::
  "('f::comm_ring_1, 'g, 'srs, 'pv, 'ts, 'e) plookup_services \<Rightarrow> 'srs \<Rightarrow> 'f list list \<Rightarrow> 'f list list
     \<Rightarrow> panic + (('g, 'pv) ProofLookupTables \<times> 'e error option \<times> 'f list list)" where
  "ProveLookupTables X srs f t =
     (let proof = \<lparr>fs = [], foldedProof = zero_ProofLookupVector X\<rparr> in
      if length f \<noteq> length t then Inr (proof, Some ErrIncompatibleSize, [])
      else if f = [] then Inl IndexOutOfRange
      else if rows_differ (length (f ! 0)) (drop 1 f) then Inr (proof, Some ErrIncompatibleSize, [])
      else if rows_differ (length (t ! 0)) (drop 1 t) then Inr (proof, Some ErrIncompatibleSize, [])
      else
        (let nbRows = length t;
             nbColumns' = (if length (f ! 0) + 1 < length (t ! 0) then length (t ! 0)
                           else length (f ! 0) + 1);
             nbColumns = domain_Cardinality nbColumns'
         in case rows_loop X srs nbColumns f t 0 nbRows
                   \<lparr>st_fs = replicate nbRows (zero_Digest X), st_lfs = replicate nbRows [],
                    st_lts = replicate nbRows [], st_committed = []\<rparr> of
              Inl p \<Rightarrow> Inl p
            | Inr (Some e, st) \<Rightarrow> Inr (proof\<lparr>fs := st_fs st\<rparr>, Some (Upstream e), st_committed st)
            | Inr (None, st) \<Rightarrow>
                (case deriveRandomness X (NewTranscript X ''lambda'') ''lambda'' (st_fs st) of
                   (lambda, Some e) \<Rightarrow>
                     Inr (proof\<lparr>fs := st_fs st\<rparr>, Some (Upstream e), st_committed st)
                 | (lambda, None) \<Rightarrow>
                     (let folded = fold_tables lambda nbColumns nbRows (st_lfs st) (st_lts st);
                          foldedf = fst folded;
                          foldedt = snd folded;
                          inner = ProveLookupVector X srs (take (length foldedf - 1) foldedf) foldedt
                      in Inr (\<lparr>fs = st_fs st, foldedProof = fst inner\<rparr>,
                              map_option Upstream (snd inner), st_committed st)))))"

subsection \<open>The verifier\<close>

text \<open>The loop \<open>for i := nbRows - 2; i >= 0; i--\<close> over the commitments.\<close>

function verify_fold ::
  "('f, 'g, 'srs, 'pv, 'ts, 'e) plookup_services \<Rightarrow> int \<Rightarrow> 'g list \<Rightarrow> int \<Rightarrow> 'g \<Rightarrow> 'g" where
  "verify_fold X blambda digests i comf =
     (if 0 \<le> i
      then verify_fold X blambda digests (i - 1)
             (Add X (ScalarMultiplication X comf blambda) (digests ! nat i))
      else comf)"
  by pat_completeness auto
termination
  by (relation "measure (\<lambda>(X, blambda, digests, i, comf). nat (i + 1))") auto

declare verify_fold.simps [simp del]

definition VerifyLookupTables ::
  "('f::zero, 'g, 'srs, 'pv, 'ts, 'e) plookup_services \<Rightarrow> 'srs \<Rightarrow> ('g, 'pv) ProofLookupTables
     \<Rightarrow> panic + 'e error option" where
  "VerifyLookupTables X srs proof =
     (let nbRows = int (length (fs proof)) in
      case deriveRandomness X (NewTranscript X ''lambda'') ''lambda'' (fs proof) of
        (lambda, Some e) \<Rightarrow> Inr (Some (Upstream e))
      | (lambda, None) \<Rightarrow>
          if nbRows - 1 < 0 then Inl IndexOutOfRange
          else
            (let comf = verify_fold X (ToBigIntRegular X lambda) (fs proof) (nbRows - 2)
                          (fs proof ! nat (nbRows - 1))
             in if comf \<noteq> proof_f X (foldedProof proof) then Inr (Some ErrFoldedCommitment)
                else Inr (map_option Upstream (VerifyLookupVector X srs (foldedProof proof)))))"

text \<open>
  The fold of the commitments in the words of the specification: start at the last
  commitment, then for every earlier one, from the last but one to the first, multiply
  by the challenge and add it.
\<close>

fun horner_digest ::
  "('f, 'g, 'srs, 'pv, 'ts, 'e) plookup_services \<Rightarrow> int \<Rightarrow> 'g list \<Rightarrow> 'g" where
  "horner_digest X k [] = zero_Digest X"
| "horner_digest X k [c] = c"
| "horner_digest X k (c # cs) = Add X (ScalarMultiplication X (horner_digest X k cs) k) c"

text \<open>Repeat-last padding in the words of the specification.\<close>

definition repeat_last :: "nat \<Rightarrow> 'a list \<Rightarrow> 'a list" where
  "repeat_last n row = row @ replicate (n - length row) (last row)"

text \<open>
  A fixed choice of the collaborators over the integers, for evaluating the model at
  concrete inputs: field elements, digests and inner proofs are integers, a commitment
  is the sum of the committed vector (so it is additive, as the specification asks of
  the commitment), the transforms are the identity, the challenge is 3, and the inner
  prover returns the commitment of its query padded to the length of the table.
\<close>

definition int_services :: "(int, int, unit, int, byte list, unit) plookup_services" where
  "int_services =
     \<lparr>zero_Digest = 0, zero_ProofLookupVector = 0,
      Commit = (\<lambda>coeffs srs. (sum_list coeffs, None)),
      FFTInverse_DIF = (\<lambda>n xs. xs), BitReverse = (\<lambda>xs. xs),
      NewTranscript = (\<lambda>label. []),
      Bind = (\<lambda>ts challenge bytes. (ts @ bytes, None)),
      ComputeChallenge = (\<lambda>ts challenge. ([3], None)),
      RawBytes = (\<lambda>g. [of_int g]),
      SetBytes = (\<lambda>b. int (be_nat b)),
      ToBigIntRegular = (\<lambda>x. x),
      ScalarMultiplication = (\<lambda>g k. g * k),
      Add = (\<lambda>g h. g + h),
      ProveLookupVector = (\<lambda>srs f t. (sum_list (repeat_last (length t) f), None)),
      VerifyLookupVector = (\<lambda>srs pv. None),
      proof_f = (\<lambda>pv. pv)\<rparr>"

section \<open>Auxiliary facts about the Ring-SIS hash\<close>

lemma go_quo_nonneg: "0 \<le> a \<Longrightarrow> 0 < b \<Longrightarrow> go_quo a b = a div b"
  by (cases "a = 0") (simp_all add: go_quo_def)

lemma go_rem_nonneg: "0 \<le> a \<Longrightarrow> 0 < b \<Longrightarrow> go_rem a b = a mod b"
  by (simp add: go_rem_def go_quo_nonneg minus_mult_div_eq_mod)

lemma length_go_copy [simp]: "length (go_copy dst src) = length dst"
  by (simp add: go_copy_def)

lemma length_in_place [simp]: "length (in_place f xs) = length xs"
  by (simp add: in_place_def)

lemma BitLen_between: "2 ^ k \<le> n \<Longrightarrow> n < 2 ^ Suc k \<Longrightarrow> BitLen n = Suc k"
proof (induction k arbitrary: n)
  case 0
  then have "n = 1" by simp
  then show ?case by (simp add: BitLen.simps)
next
  case (Suc k)
  have "2 ^ k \<le> n div 2" using Suc.prems(1) by simp
  moreover have "n div 2 < 2 ^ Suc k" using Suc.prems(2) by simp
  ultimately have "BitLen (n div 2) = Suc k" by (rule Suc.IH)
  moreover have "(0::nat) < 2 ^ Suc k" by simp
  then have "n \<noteq> 0" using Suc.prems(1) by linarith
  ultimately show ?case by (simp add: BitLen.simps[of n])
qed

lemma BitLen_fr_Modulus: "BitLen fr_Modulus = 254"
proof -
  have "BitLen fr_Modulus = Suc 253"
    by (rule BitLen_between) (simp_all add: fr_Modulus_def)
  then show ?thesis by simp
qed

lemma length_unpack_byte [simp]: "length (unpack_byte mBits i tmp) = length mBits"
proof -
  have "length (foldl (\<lambda>mb j. mb[i * 8 + j := (drop_bit (7 - j) tmp) AND 1]) mb js) = length mb" for mb js
    by (induction js arbitrary: mb) simp_all
  then show ?thesis by (simp add: unpack_byte_def)
qed

lemma and_one_le_one: "(x::byte) AND 1 \<le> 1"
  by (rule word_and_le1)

lemma unpack_byte_bits:
  assumes "\<forall>b \<in> set mBits. b \<le> 1"
  shows "\<forall>b \<in> set (unpack_byte mBits i tmp). b \<le> 1"
proof -
  have "\<forall>b \<in> set mb. b \<le> 1 \<Longrightarrow>
        \<forall>b \<in> set (foldl (\<lambda>mb j. mb[i * 8 + j := (drop_bit (7 - j) tmp) AND 1]) mb js). b \<le> 1" for mb js
  proof (induction js arbitrary: mb)
    case Nil then show ?case by simp
  next
    case (Cons j js)
    have "\<forall>b \<in> set (mb[i * 8 + j := (drop_bit (7 - j) tmp) AND 1]). b \<le> 1"
      using Cons.prems and_one_le_one by (metis insert_iff set_update_subset_insert subsetD)
    then show ?case using Cons.IH by simp
  qed
  then show ?thesis using assms by (simp add: unpack_byte_def)
qed

lemma read_loop_rest:
  "read_loop i n buf mBits = Inr (rest, mb) \<Longrightarrow> rest = drop (n - i) buf"
proof (induction i n buf mBits rule: read_loop.induct)
  case (1 i n buf mBits)
  show ?case
  proof (cases "i < n")
    case False
    with "1.prems" show ?thesis by (simp add: read_loop.simps)
  next
    case True
    show ?thesis
    proof (cases buf)
      case Nil
      with True "1.prems" show ?thesis by (simp add: read_loop.simps)
    next
      case (Cons tmp rest')
      with True "1.prems" have "read_loop (Suc i) n rest' (unpack_byte mBits i tmp) = Inr (rest, mb)"
        by (simp add: read_loop.simps)
      from "1.IH"[OF True Cons this] have "rest = drop (n - Suc i) rest'" .
      moreover have "n - i = Suc (n - Suc i)" using True by simp
      ultimately show ?thesis using Cons by simp
    qed
  qed
qed

lemma read_loop_bits:
  "read_loop i n buf mBits = Inr (rest, mb) \<Longrightarrow> \<forall>b \<in> set mBits. b \<le> 1
     \<Longrightarrow> length mb = length mBits \<and> (\<forall>b \<in> set mb. b \<le> 1)"
proof (induction i n buf mBits rule: read_loop.induct)
  case (1 i n buf mBits)
  show ?case
  proof (cases "i < n")
    case False
    with "1.prems" show ?thesis by (simp add: read_loop.simps)
  next
    case True
    show ?thesis
    proof (cases buf)
      case Nil
      with True "1.prems" show ?thesis by (simp add: read_loop.simps)
    next
      case (Cons tmp rest')
      with True "1.prems" have "read_loop (Suc i) n rest' (unpack_byte mBits i tmp) = Inr (rest, mb)"
        by (simp add: read_loop.simps)
      from "1.IH"[OF True Cons this unpack_byte_bits[OF "1.prems"(2)]]
      show ?thesis by simp
    qed
  qed
qed

lemma read_loop_returns:
  "n - i \<le> length buf \<Longrightarrow> \<exists>mb. read_loop i n buf mBits = Inr (drop (n - i) buf, mb)"
proof (induction i n buf mBits rule: read_loop.induct)
  case (1 i n buf mBits)
  show ?case
  proof (cases "i < n")
    case False
    then show ?thesis by (simp add: read_loop.simps)
  next
    case True
    then obtain tmp rest' where buf: "buf = tmp # rest'"
      using "1.prems" by (cases buf) auto
    have "n - Suc i \<le> length rest'" using "1.prems" buf True by simp
    from "1.IH"[OF True buf this]
    obtain mb where "read_loop (Suc i) n rest' (unpack_byte mBits i tmp) = Inr (drop (n - Suc i) rest', mb)"
      by blast
    moreover have "n - i = Suc (n - Suc i)" using True by simp
    ultimately show ?thesis using True buf by (simp add: read_loop.simps[of i])
  qed
qed

lemma unat_push_bit_le: "(b::byte) \<le> 1 \<Longrightarrow> unat (push_bit s b) \<le> 2 ^ s"
proof -
  assume "b \<le> 1"
  then have b: "unat b \<le> 1" by (simp add: word_le_nat_alt)
  have "unat (push_bit s b) = take_bit 8 (push_bit s (unat b))"
    by (simp add: unsigned_push_bit_eq)
  also have "\<dots> \<le> push_bit s (unat b)" by (rule take_bit_nat_less_eq_self)
  also have "\<dots> = unat b * 2 ^ s" by (simp add: push_bit_eq_mult)
  also have "\<dots> \<le> 1 * 2 ^ s" using b by (rule mult_le_mono1)
  finally show ?thesis by simp
qed

lemma unat_add_le': "unat ((x::byte) + y) \<le> unat x + unat y"
  by (simp add: unat_word_ariths)

lemma fill_first_loop:
  assumes bits: "\<forall>b \<in> set mBits. b \<le> (1::byte)" and rng: "base + offset \<le> length mBits"
    and t: "t \<le> offset"
  shows "length (foldl (\<lambda>buf j. buf[0 := buf ! 0 + push_bit (offset - 1 - j) (mBits ! (base + j))])
                   (replicate (Suc w) 0) [0..<t]) = Suc w
       \<and> unat (foldl (\<lambda>buf j. buf[0 := buf ! 0 + push_bit (offset - 1 - j) (mBits ! (base + j))])
                   (replicate (Suc w) 0) [0..<t] ! 0) + 2 ^ (offset - t) \<le> 2 ^ offset"
  using t
proof (induction t)
  case 0
  show ?case by simp
next
  case (Suc t)
  let ?f = "\<lambda>buf j. buf[0 := buf ! 0 + push_bit (offset - 1 - j) (mBits ! (base + j))]"
  let ?prev = "foldl ?f (replicate (Suc w) 0) [0..<t]"
  from Suc have len: "length ?prev = Suc w"
    and inv: "unat (?prev ! 0) + 2 ^ (offset - t) \<le> 2 ^ offset" by simp_all
  define s where "s = offset - 1 - t"
  have e1: "offset - t = Suc s" and e2: "offset - Suc t = s"
    using Suc.prems by (simp_all add: s_def)
  have "base + t < length mBits" using Suc.prems rng by simp
  then have "mBits ! (base + t) \<le> 1" using bits by simp
  then have "unat (push_bit s (mBits ! (base + t))) \<le> 2 ^ s"
    by (rule unat_push_bit_le)
  moreover have "unat (?prev ! 0 + push_bit s (mBits ! (base + t)))
               \<le> unat (?prev ! 0) + unat (push_bit s (mBits ! (base + t)))"
    by (rule unat_add_le')
  moreover have "unat (?prev ! 0) + 2 * 2 ^ s \<le> 2 ^ offset"
    using inv by (simp add: e1)
  ultimately have "unat (?prev ! 0 + push_bit s (mBits ! (base + t))) + 2 ^ s \<le> 2 ^ offset"
    by linarith
  then have "unat (?f ?prev t ! 0) + 2 ^ (offset - Suc t) \<le> 2 ^ offset"
    using len by (simp add: e2 s_def[symmetric])
  moreover have "length (?f ?prev t) = Suc w" using len by simp
  moreover have "foldl ?f (replicate (Suc w) 0) [0..<Suc t] = ?f ?prev t" by simp
  ultimately show ?case by (simp only:)
qed

lemma fill_second_loop:
  "length (foldl (\<lambda>buf j. foldl (\<lambda>buf k. buf[j + 1 := g buf j k]) buf ks) buf js) = length buf
   \<and> foldl (\<lambda>buf j. foldl (\<lambda>buf k. buf[j + 1 := g buf j k]) buf ks) buf js ! 0 = buf ! 0"
proof (induction js arbitrary: buf)
  case Nil
  show ?case by simp
next
  case (Cons j js)
  have inner: "length (foldl (\<lambda>buf k. buf[j + 1 := g buf j k]) b ks) = length b
      \<and> foldl (\<lambda>buf k. buf[j + 1 := g buf j k]) b ks ! 0 = b ! 0" for b
    by (induction ks arbitrary: b) simp_all
  show ?case using Cons.IH[of "foldl (\<lambda>buf k. buf[j + 1 := g buf j k]) buf ks"] inner[of buf]
    by simp
qed

lemma fill_buf_shape:
  assumes "\<forall>b \<in> set mBits. b \<le> 1" and "i * nbBits + offset \<le> length mBits"
  shows "length (fill_buf mBits i nbBits offset nbBytes) = Suc nbBytes"
    and "unat (fill_buf mBits i nbBits offset nbBytes ! 0) < 2 ^ offset"
proof -
  let ?f = "\<lambda>buf j. buf[0 := buf ! 0 + push_bit (offset - 1 - j) (mBits ! (i * nbBits + j))]"
  let ?b1 = "foldl ?f (replicate (Suc nbBytes) 0) [0..<offset]"
  let ?g = "\<lambda>buf j k. buf ! (j + 1) + push_bit (7 - k) (mBits ! (i * nbBits + offset + 8 * j + k))"
  have fb: "fill_buf mBits i nbBits offset nbBytes
        = foldl (\<lambda>buf j. foldl (\<lambda>buf k. buf[j + 1 := ?g buf j k]) buf [0..<8]) ?b1 [0..<nbBytes]"
    by (simp add: fill_buf_def Let_def)
  from fill_first_loop[OF assms, of offset nbBytes]
  have l1: "length ?b1 = Suc nbBytes" and v1: "unat (?b1 ! 0) + 1 \<le> 2 ^ offset" by simp_all
  from fill_second_loop[of ?g "[0..<8]" ?b1 "[0..<nbBytes]"]
  show "length (fill_buf mBits i nbBits offset nbBytes) = Suc nbBytes"
    and "unat (fill_buf mBits i nbBits offset nbBytes ! 0) < 2 ^ offset"
    using l1 v1 unfolding fb by simp_all
qed

lemma be_nat_foldl:
  "foldl (\<lambda>a b. a * 256 + unat (b::byte)) a bs = a * 256 ^ length bs + foldl (\<lambda>a b. a * 256 + unat b) 0 bs"
proof (induction bs arbitrary: a)
  case Nil show ?case by simp
next
  case (Cons b bs)
  show ?case using Cons.IH[of "a * 256 + unat b"] Cons.IH[of "unat b"]
    by (simp add: algebra_simps)
qed

lemma be_nat_lt: "be_nat bs < 256 ^ length bs"
proof (induction bs rule: rev_induct)
  case Nil show ?case by (simp add: be_nat_def)
next
  case (snoc b bs)
  have "unat b < 256" using unsigned_less[of b, where ?'a = nat] by simp
  moreover have "be_nat bs + 1 \<le> 256 ^ length bs" using snoc by simp
  then have "(be_nat bs + 1) * 256 \<le> 256 ^ length bs * 256" by (rule mult_le_mono1)
  ultimately have "be_nat bs * 256 + unat b < 256 ^ length bs * 256" by simp
  then show ?case by (simp add: be_nat_def)
qed

lemma be_nat_Cons: "be_nat (b # bs) = unat b * 256 ^ length bs + be_nat bs"
  using be_nat_foldl[of "unat b" bs] by (simp add: be_nat_def)

lemma be_nat_head_bound:
  assumes "length buf = Suc w" and "unat (buf ! 0) < 2 ^ offset"
  shows "be_nat buf < 2 ^ (offset + 8 * w)"
proof -
  obtain b bs where buf: "buf = b # bs" and len: "length bs = w"
    using assms(1) by (cases buf) auto
  have "unat b + 1 \<le> 2 ^ offset" using assms(2) buf by simp
  then have "(unat b + 1) * 256 ^ w \<le> 2 ^ offset * 256 ^ w" by (rule mult_le_mono1)
  moreover have "be_nat buf < (unat b + 1) * 256 ^ w"
    using be_nat_lt[of bs] by (simp add: buf be_nat_Cons len)
  moreover have "(256::nat) ^ w = 2 ^ (8 * w)" by (simp add: power_mult)
  ultimately show ?thesis by (simp add: power_add)
qed

lemma coefficient_bound:
  assumes "\<forall>b \<in> set mBits. b \<le> 1" and "i * nbBits + offset \<le> length mBits"
  shows "fr_SetBytes (fill_buf mBits i nbBits offset nbBytes) < 2 ^ (offset + 8 * nbBytes)"
proof -
  have "be_nat (fill_buf mBits i nbBits offset nbBytes) < 2 ^ (offset + 8 * nbBytes)"
    using fill_buf_shape[OF assms] by (rule be_nat_head_bound)
  moreover have "fr_SetBytes (fill_buf mBits i nbBits offset nbBytes)
                   \<le> be_nat (fill_buf mBits i nbBits offset nbBytes)"
    by (simp add: fr_SetBytes_def)
  ultimately show ?thesis by linarith
qed

lemma coeff_loop_bound:
  assumes "coeff_loop mBits nbBits offset nbBytes i cnt m = Inr m'"
    and "\<forall>b \<in> set mBits. b \<le> 1" and "cnt * nbBits \<le> length mBits" and "offset \<le> nbBits"
    and "\<forall>x \<in> set m. x < 2 ^ (offset + 8 * nbBytes)"
  shows "length m' = length m \<and> (\<forall>x \<in> set m'. x < 2 ^ (offset + 8 * nbBytes))"
  using assms
proof (induction mBits nbBits offset nbBytes i cnt m rule: coeff_loop.induct)
  case (1 mBits nbBits offset nbBytes i cnt m)
  show ?case
  proof (cases "i < cnt")
    case False
    with "1.prems" show ?thesis by (simp add: coeff_loop.simps)
  next
    case True
    show ?thesis
    proof (cases "i < length m")
      case False
      with True "1.prems"(1) show ?thesis by (simp add: coeff_loop.simps)
    next
      case inr: True
      let ?c = "fr_SetBytes (fill_buf mBits i nbBits offset nbBytes)"
      have rec: "coeff_loop mBits nbBits offset nbBytes (Suc i) cnt (m[i := ?c]) = Inr m'"
        using True inr "1.prems"(1) by (simp add: coeff_loop.simps[of _ _ _ _ i])
      have "Suc i \<le> cnt" using True by simp
      then have "Suc i * nbBits \<le> cnt * nbBits" by (rule mult_le_mono1)
      then have "i * nbBits + offset \<le> length mBits"
        using "1.prems"(3,4) by simp
      then have "?c < 2 ^ (offset + 8 * nbBytes)"
        using "1.prems"(2) by (simp add: coefficient_bound)
      then have "\<forall>x \<in> set (m[i := ?c]). x < 2 ^ (offset + 8 * nbBytes)"
        using "1.prems"(5) by (metis insert_iff set_update_subset_insert subsetD)
      from "1.IH"[OF True inr rec "1.prems"(2,3,4) this]
      show ?thesis by simp
    qed
  qed
qed

lemma coeff_loop_returns:
  "cnt \<le> length m \<Longrightarrow> \<exists>m'. coeff_loop mBits nbBits offset nbBytes i cnt m = Inr m'"
proof (induction mBits nbBits offset nbBytes i cnt m rule: coeff_loop.induct)
  case (1 mBits nbBits offset nbBytes i cnt m)
  show ?case
  proof (cases "i < cnt")
    case False
    then show ?thesis by (simp add: coeff_loop.simps)
  next
    case True
    then have inr: "i < length m" using "1.prems" by simp
    have "cnt \<le> length (m[i := fr_SetBytes (fill_buf mBits i nbBits offset nbBytes)])"
      using "1.prems" by simp
    from "1.IH"[OF True inr this] show ?thesis
      using True inr by (simp add: coeff_loop.simps[of _ _ _ _ i])
  qed
qed

lemma MulMod_length: "MulMod p q = Inr t \<Longrightarrow> length t = length p"
  by (auto simp: MulMod_def split: if_splits)

lemma hash_loop_length:
  "hash_loop X r i m res = Inr res' \<Longrightarrow> length res' = length res"
proof (induction X r i m res rule: hash_loop.induct)
  case (1 X r i m res)
  show ?case
  proof (cases "i < length (AfftCosetBitreversed r)")
    case False
    with "1.prems" show ?thesis by (simp add: hash_loop.simps)
  next
    case True
    let ?d = "nat (Degree r)"
    let ?q = "in_place (FFT X (Domain r)) (take ?d (drop (i * ?d) m))"
    from True "1.prems" have nl: "\<not> length m < (i + 1) * ?d"
      by (auto simp: hash_loop.simps[of _ _ i] Let_def split: if_splits)
    from True "1.prems" nl obtain t where t: "MulMod (AfftCosetBitreversed r ! i) ?q = Inr t"
      by (cases "MulMod (AfftCosetBitreversed r ! i) ?q")
         (auto simp: hash_loop.simps[of _ _ i] Let_def split: if_splits)
    from True "1.prems" nl t have le: "length res \<le> length t"
      by (auto simp: hash_loop.simps[of _ _ i] Let_def split: if_splits)
    from True "1.prems" nl t le
    have rec: "hash_loop X r (Suc i) m (map (\<lambda>j. fr_Add (res ! j) (t ! j)) [0..<length res]) = Inr res'"
      by (simp add: hash_loop.simps[of _ _ i] Let_def)
    from "1.IH"[OF True refl nl t le rec] show ?thesis by simp
  qed
qed

lemma hash_loop_returns:
  assumes "\<forall>row \<in> set (AfftCosetBitreversed r). length row = nat (Degree r)"
    and "length (AfftCosetBitreversed r) * nat (Degree r) \<le> length m"
    and "length res = nat (Degree r)"
  shows "\<exists>res'. hash_loop X r i m res = Inr res'"
  using assms
proof (induction X r i m res rule: hash_loop.induct)
  case (1 X r i m res)
  show ?case
  proof (cases "i < length (AfftCosetBitreversed r)")
    case False
    then show ?thesis by (simp add: hash_loop.simps)
  next
    case True
    let ?d = "nat (Degree r)"
    let ?q = "in_place (FFT X (Domain r)) (take ?d (drop (i * ?d) m))"
    have "i + 1 \<le> length (AfftCosetBitreversed r)" using True by simp
    then have "(i + 1) * ?d \<le> length (AfftCosetBitreversed r) * ?d" by (rule mult_le_mono1)
    then have nl: "\<not> length m < (i + 1) * ?d" using "1.prems"(2) by simp
    have lq: "length ?q = ?d" using nl by simp
    have lp: "length (AfftCosetBitreversed r ! i) = ?d" using True "1.prems"(1) by simp
    define t where "t = map (\<lambda>k. fr_Mul ((AfftCosetBitreversed r ! i) ! k) (?q ! k)) [0..<?d]"
    have t: "MulMod (AfftCosetBitreversed r ! i) ?q = Inr t"
      unfolding MulMod_def t_def using lq lp by simp
    have le: "length res \<le> length t" using "1.prems"(3) by (simp add: t_def)
    have "length (map (\<lambda>j. fr_Add (res ! j) (t ! j)) [0..<length res]) = ?d"
      using "1.prems"(3) by simp
    from "1.IH"[OF True refl nl t le "1.prems"(1,2) this]
    show ?thesis using True nl t le by (simp add: hash_loop.simps[of _ _ i] Let_def)
  qed
qed

lemma drop_padded_buffer:
  "drop (nat (NbBytesToSum r)) (padded_buffer r) = drop (nat (NbBytesToSum r)) (buffer r)"
  by (simp add: padded_buffer_def)

lemma length_padded_buffer: "0 \<le> NbBytesToSum r \<Longrightarrow> nat (NbBytesToSum r) \<le> length (padded_buffer r)"
proof (cases "int (length (buffer r)) < NbBytesToSum r")
  case True
  then have "length (padded_buffer r) = length (buffer r) + nat (NbBytesToSum r - int (length (buffer r)))"
    by (simp add: padded_buffer_def)
  then show ?thesis by linarith
next
  case False
  then have "length (padded_buffer r) = length (buffer r)" by (simp add: padded_buffer_def)
  then show ?thesis using False by linarith
qed

lemma int_div_mult_le: "0 < b \<Longrightarrow> (a::int) div b * b \<le> a"
proof -
  assume "0 < b"
  then have "0 \<le> a mod b" by simp
  moreover have "a div b * b = a - a mod b" by (simp add: minus_mod_eq_div_mult)
  ultimately show ?thesis by simp
qed

lemma assemble_InrD:
  assumes "assemble r = Inr (rest, m)"
  obtains mBits where "0 \<le> NbBytesToSum r"
    and "read_loop 0 (nat (NbBytesToSum r)) (padded_buffer r)
           (replicate (nat (NbBytesToSum r * 8)) 0) = Inr (rest, mBits)"
    and "LogTwoBound r \<noteq> 0" and "0 \<le> Degree r * int (length (A r))"
    and "coeff_loop mBits (nat (LogTwoBound r)) (nat (go_rem (LogTwoBound r) 8))
           (nat (go_quo (LogTwoBound r - go_rem (LogTwoBound r) 8) 8)) 0
           (nat (go_quo (NbBytesToSum r * 8) (LogTwoBound r)))
           (replicate (nat (Degree r * int (length (A r)))) 0) = Inr m"
  using assms unfolding assemble_def Let_def
  by (auto split: if_splits sum.splits prod.splits)

lemma go_quo_neg_divisor: "0 \<le> a \<Longrightarrow> b < 0 \<Longrightarrow> go_quo a b \<le> 0"
proof -
  assume a: "0 \<le> a" and b: "b < 0"
  have "0 \<le> \<bar>a\<bar> div \<bar>b\<bar>" using b by (simp add: pos_imp_zdiv_nonneg_iff)
  then have "0 \<le> sgn a * (\<bar>a\<bar> div \<bar>b\<bar>)" using a by (simp add: sgn_if)
  then show ?thesis using b by (simp add: go_quo_def sgn_if split: if_splits)
qed

lemma assemble_result:
  assumes "assemble r = Inr (rest, m)"
  shows "rest = drop (nat (NbBytesToSum r)) (buffer r)"
    and "length m = nat (Degree r * int (length (A r)))"
    and "\<forall>x \<in> set m. x < 2 ^ nat (LogTwoBound r)"
proof -
  let ?B = "LogTwoBound r" and ?N = "NbBytesToSum r"
  let ?m0 = "replicate (nat (Degree r * int (length (A r)))) (0::fr)"
  from assms obtain mBits where n0: "0 \<le> ?N"
    and rl: "read_loop 0 (nat ?N) (padded_buffer r) (replicate (nat (?N * 8)) 0) = Inr (rest, mBits)"
    and b0: "?B \<noteq> 0"
    and cl: "coeff_loop mBits (nat ?B) (nat (go_rem ?B 8)) (nat (go_quo (?B - go_rem ?B 8) 8)) 0
               (nat (go_quo (?N * 8) ?B)) ?m0 = Inr m"
    by (rule assemble_InrD)
  from read_loop_rest[OF rl] show "rest = drop (nat ?N) (buffer r)"
    by (simp add: drop_padded_buffer)
  have bits: "length mBits = nat (?N * 8) \<and> (\<forall>b \<in> set mBits. b \<le> 1)"
    using read_loop_bits[OF rl] by simp
  show "length m = nat (Degree r * int (length (A r)))"
    and "\<forall>x \<in> set m. x < 2 ^ nat ?B"
  proof -
    have "length m = length ?m0 \<and> (\<forall>x \<in> set m. x < 2 ^ nat ?B)"
    proof (cases "0 < ?B")
      case False
      then have neg: "?B < 0" using b0 by simp
      have "go_quo (?N * 8) ?B \<le> 0" using n0 neg by (simp add: go_quo_neg_divisor)
      then have "nat (go_quo (?N * 8) ?B) = 0" by simp
      then have "m = ?m0" using cl by (simp add: coeff_loop.simps)
      then show ?thesis by simp
    next
      case True
      have off: "go_rem ?B 8 = ?B mod 8" using True by (simp add: go_rem_nonneg)
      have nb: "go_quo (?B - ?B mod 8) 8 = ?B div 8"
      proof -
        have "0 \<le> ?B - ?B mod 8" using True by (simp add: zmod_le_nonneg_dividend)
        then have "go_quo (?B - ?B mod 8) 8 = (?B - ?B mod 8) div 8" by (simp add: go_quo_nonneg)
        also have "\<dots> = ?B div 8" by (simp add: minus_mod_eq_mult_div)
        finally show ?thesis .
      qed
      have cnt: "go_quo (?N * 8) ?B = (?N * 8) div ?B" using n0 True by (simp add: go_quo_nonneg)
      have split: "nat (?B mod 8) + 8 * nat (?B div 8) = nat ?B"
      proof -
        have "0 \<le> ?B mod 8" and "0 \<le> ?B div 8" using True by (simp_all add: pos_imp_zdiv_nonneg_iff)
        then have "int (nat (?B mod 8) + 8 * nat (?B div 8)) = ?B mod 8 + 8 * (?B div 8)" by simp
        also have "\<dots> = ?B" by simp
        finally show ?thesis by linarith
      qed
      have le1: "nat ((?N * 8) div ?B) * nat ?B \<le> length mBits"
      proof -
        have q0: "0 \<le> (?N * 8) div ?B" using n0 True by (simp add: pos_imp_zdiv_nonneg_iff)
        have "(?N * 8) div ?B * ?B \<le> ?N * 8" using True by (simp add: int_div_mult_le)
        moreover have "int (nat ((?N * 8) div ?B) * nat ?B) = (?N * 8) div ?B * ?B"
          using q0 True by simp
        ultimately have "int (nat ((?N * 8) div ?B) * nat ?B) \<le> ?N * 8" by simp
        then show ?thesis using bits by linarith
      qed
      have "?B mod 8 \<le> ?B" using True by (simp add: zmod_le_nonneg_dividend)
      then have le2: "nat (?B mod 8) \<le> nat ?B" by linarith
      have init: "\<forall>x \<in> set ?m0. x < 2 ^ (nat (?B mod 8) + 8 * nat (?B div 8))" by simp
      have cl': "coeff_loop mBits (nat ?B) (nat (?B mod 8)) (nat (?B div 8)) 0
               (nat ((?N * 8) div ?B)) ?m0 = Inr m"
        using cl by (simp only: off nb cnt)
      from coeff_loop_bound[OF cl' conjunct2[OF bits] le1 le2 init]
      have "length m = length ?m0 \<and> (\<forall>x \<in> set m. x < 2 ^ (nat (?B mod 8) + 8 * nat (?B div 8)))" .
      then show ?thesis unfolding split .
    qed
    then show "length m = nat (Degree r * int (length (A r)))"
      and "\<forall>x \<in> set m. x < 2 ^ nat ?B" by simp_all
  qed
qed

lemma assemble_returns:
  assumes "well_formed r"
  shows "\<exists>rest m. assemble r = Inr (rest, m)"
proof -
  let ?B = "LogTwoBound r" and ?N = "NbBytesToSum r" and ?D = "Degree r"
  let ?k = "int (length (A r))"
  from assms have B: "1 \<le> ?B" and D: "1 \<le> ?D"
    and N: "?N = (?B * ?D * ?k) div 8" by (simp_all add: well_formed_def)
  have prod0: "0 \<le> ?B * ?D * ?k" using B D by simp
  have n0: "0 \<le> ?N" using prod0 by (simp add: N pos_imp_zdiv_nonneg_iff)
  have m0: "0 \<le> ?D * ?k" using D by simp
  obtain mBits where rl: "read_loop 0 (nat ?N) (padded_buffer r) (replicate (nat (?N * 8)) 0)
        = Inr (drop (nat ?N - 0) (padded_buffer r), mBits)"
    using read_loop_returns[of "nat ?N" 0 "padded_buffer r"] length_padded_buffer[OF n0] by auto
  have nb: "0 \<le> go_quo (?B - go_rem ?B 8) 8"
  proof -
    have "0 \<le> ?B - ?B mod 8" using B by (simp add: zmod_le_nonneg_dividend)
    then show ?thesis using B by (simp add: go_rem_nonneg go_quo_nonneg pos_imp_zdiv_nonneg_iff)
  qed
  have cnt: "nat (go_quo (?N * 8) ?B) \<le> length (replicate (nat (?D * ?k)) (0::fr))"
  proof -
    have "?N * 8 \<le> ?B * ?D * ?k" by (simp add: N int_div_mult_le)
    then have "(?N * 8) div ?B \<le> (?B * ?D * ?k) div ?B" by (rule zdiv_mono1) (use B in simp)
    also have "(?B * ?D * ?k) div ?B = ?D * ?k" using B by (simp add: mult.assoc)
    finally have "(?N * 8) div ?B \<le> ?D * ?k" .
    moreover have "go_quo (?N * 8) ?B = (?N * 8) div ?B" using n0 B by (simp add: go_quo_nonneg)
    ultimately show ?thesis by simp
  qed
  from coeff_loop_returns[OF cnt]
  obtain m where "coeff_loop mBits (nat ?B) (nat (go_rem ?B 8))
           (nat (go_quo (?B - go_rem ?B 8) 8)) 0 (nat (go_quo (?N * 8) ?B))
           (replicate (nat (?D * ?k)) 0) = Inr m" by blast
  then have "assemble r = Inr (drop (nat ?N) (padded_buffer r), m)"
    using rl n0 nb m0 B unfolding assemble_def Let_def by simp
  then show ?thesis by blast
qed

lemma length_fr_Bytes [simp]: "length (fr_Bytes x) = fr_Bytes_len"
  by (simp add: fr_Bytes_def)

lemma length_concat_fixed:
  "(\<And>i. length (f i) = n) \<Longrightarrow> length (concat (map f xs)) = n * length xs"
  by (induction xs) simp_all

lemma Sum_InrD:
  assumes "Sum X r b = Inr (r', out)"
  obtains rest m res where "assemble r = Inr (rest, m)" and "0 \<le> Degree r"
    and "hash_loop X r 0 m (replicate (nat (Degree r)) 0) = Inr res"
    and "r' = r\<lparr>buffer := rest\<rparr>"
    and "out = b @ concat (map (\<lambda>i. go_copy (replicate fr_Bytes_len 0)
                  (fr_Bytes (in_place (FFTInverse X (Domain r)) res ! i))) [0..<nat (Degree r)])"
  using assms unfolding Sum_def Let_def
  by (auto split: if_splits sum.splits prod.splits)

lemma Sum_result:
  assumes "Sum X r b = Inr (r', out)"
  shows "r' = r\<lparr>buffer := drop (nat (NbBytesToSum r)) (buffer r)\<rparr>"
    and "length out = length b + fr_Bytes_len * nat (Degree r)"
proof -
  from assms obtain rest m res where a: "assemble r = Inr (rest, m)"
    and r': "r' = r\<lparr>buffer := rest\<rparr>"
    and out: "out = b @ concat (map (\<lambda>i. go_copy (replicate fr_Bytes_len 0)
                  (fr_Bytes (in_place (FFTInverse X (Domain r)) res ! i))) [0..<nat (Degree r)])"
    by (rule Sum_InrD)
  show "r' = r\<lparr>buffer := drop (nat (NbBytesToSum r)) (buffer r)\<rparr>"
    using assemble_result(1)[OF a] r' by simp
  show "length out = length b + fr_Bytes_len * nat (Degree r)"
    unfolding out by (simp add: length_concat_fixed)
qed

lemma Sum_returns:
  assumes "well_formed r"
  shows "\<exists>r' out. Sum X r b = Inr (r', out)"
proof -
  from assemble_returns[OF assms] obtain rest m where a: "assemble r = Inr (rest, m)" by blast
  from assms have D: "1 \<le> Degree r"
    and len: "length (AfftCosetBitreversed r) = length (A r)"
    and rows: "\<forall>row \<in> set (AfftCosetBitreversed r). int (length row) = Degree r"
    by (simp_all add: well_formed_def)
  have rows': "\<forall>row \<in> set (AfftCosetBitreversed r). length row = nat (Degree r)"
    using rows by auto
  have "length m = nat (Degree r * int (length (A r)))" using assemble_result(2)[OF a] .
  also have "\<dots> = length (AfftCosetBitreversed r) * nat (Degree r)"
    using D len by (simp add: nat_mult_distrib mult.commute)
  finally have lm: "length (AfftCosetBitreversed r) * nat (Degree r) \<le> length m" by simp
  from hash_loop_returns[OF rows' lm, of "replicate (nat (Degree r)) 0" X 0]
  obtain res where h: "hash_loop X r 0 m (replicate (nat (Degree r)) 0) = Inr res" by auto
  have "length res = nat (Degree r)" using hash_loop_length[OF h] by simp
  then have lres: "0 < length res" using D by simp
  have ne: "in_place (FFTInverse X (Domain r)) res \<noteq> []"
  proof
    assume "in_place (FFTInverse X (Domain r)) res = []"
    then have "length (in_place (FFTInverse X (Domain r)) res) = length ([]::fr list)"
      by (rule arg_cong)
    then show False using lres by simp
  qed
  show ?thesis using a h ne D unfolding Sum_def Let_def by simp
qed

lemma well_formed_buffer [simp]: "well_formed (r\<lparr>buffer := w\<rparr>) = well_formed r"
  by (simp add: well_formed_def)

lemma Write_fst [simp]: "fst (Write r p) = r\<lparr>buffer := buffer r @ p\<rparr>"
  by (simp add: Write_def)

lemma length_rows_loop:
  "length (foldl (\<lambda>row j. in_place f (go_copy row src)) row js) = length row"
  by (induction js arbitrary: row) simp_all

lemma int64_in_range: "- (2 ^ 63) \<le> x \<Longrightarrow> x < 2 ^ 63 \<Longrightarrow> int64 x = x"
  by (simp add: int64_def sint_sbintrunc' signed_take_bit_int_eq_self)

lemma int64_mult_left: "int64 (int64 a * b) = int64 (a * b)"
proof -
  have "(word_of_int (sint (word_of_int a :: 64 word) * b) :: 64 word) = word_of_int a * word_of_int b"
    by (simp add: of_int_sint)
  then show ?thesis by (simp add: int64_def)
qed

lemma NewRSis_returns:
  assumes "0 \<le> ld" and "ld \<le> 27" and "0 \<le> ks"
  shows "\<exists>r. NewRSis X seed ld lb ks = Inr (r, None) \<and> buffer r = []
           \<and> Degree r = 2 ^ nat ld \<and> length (A r) = nat ks \<and> LogTwoBound r = lb
           \<and> length (AfftCosetBitreversed r) = nat ks
           \<and> (\<forall>row \<in> set (A r). int (length row) = Degree r)
           \<and> (\<forall>row \<in> set (AfftCosetBitreversed r). int (length row) = Degree r)
           \<and> NbBytesToSum r = go_quo (int64 (int64 (lb * 2 ^ nat ld) * ks)) 8"
  using assms unfolding NewRSis_def Let_def
  by (auto simp: length_rows_loop)

lemma NewRSis_well_formed:
  assumes "0 \<le> ld" and "ld \<le> 27" and "0 \<le> ks" and "1 \<le> lb"
    and "lb * 2 ^ nat ld * ks < 2 ^ 63"
  shows "\<exists>r. NewRSis X seed ld lb ks = Inr (r, None) \<and> well_formed r \<and> buffer r = []
           \<and> Degree r = 2 ^ nat ld \<and> length (A r) = nat ks \<and> LogTwoBound r = lb
           \<and> NbBytesToSum r = (lb * 2 ^ nat ld * ks) div 8"
proof -
  from NewRSis_returns[OF assms(1-3), of X seed lb] obtain r where
    r: "NewRSis X seed ld lb ks = Inr (r, None)" "buffer r = []" "Degree r = 2 ^ nat ld"
      "length (A r) = nat ks" "LogTwoBound r = lb" "length (AfftCosetBitreversed r) = nat ks"
      "\<forall>row \<in> set (A r). int (length row) = Degree r"
      "\<forall>row \<in> set (AfftCosetBitreversed r). int (length row) = Degree r"
      "NbBytesToSum r = go_quo (int64 (int64 (lb * 2 ^ nat ld) * ks)) 8" by blast
  have nonneg: "0 \<le> lb * 2 ^ nat ld * ks" using assms by simp
  then have "int64 (int64 (lb * 2 ^ nat ld) * ks) = lb * 2 ^ nat ld * ks"
    using assms(5) by (simp add: int64_mult_left int64_in_range)
  then have N: "NbBytesToSum r = (lb * 2 ^ nat ld * ks) div 8"
    using r(9) nonneg by (simp add: go_quo_nonneg)
  have "well_formed r" unfolding well_formed_def using r(3-8) N assms by simp
  then show ?thesis using r N by blast
qed

lemma NewRSis_panics:
  "\<not> (0 \<le> ld \<and> ld \<le> 27 \<and> 0 \<le> ks) \<Longrightarrow> \<exists>p. NewRSis X seed ld lb ks = Inl p"
  unfolding NewRSis_def by auto


lemma NewRSis_InrD:
  assumes "NewRSis X seed ld lb ks = Inr (r, e)" and "1 \<le> lb"
    and "lb * 2 ^ nat ld * ks < 2 ^ 63"
  shows "e = None" and "well_formed r" and "buffer r = []" and "Degree r = 2 ^ nat ld"
    and "length (A r) = nat ks" and "LogTwoBound r = lb"
    and "NbBytesToSum r = (lb * 2 ^ nat ld * ks) div 8"
proof -
  have v: "0 \<le> ld \<and> ld \<le> 27 \<and> 0 \<le> ks"
  proof (rule ccontr)
    assume "\<not> (0 \<le> ld \<and> ld \<le> 27 \<and> 0 \<le> ks)"
    from NewRSis_panics[OF this, of X seed lb] show False using assms(1) by auto
  qed
  from v have "0 \<le> ld" "ld \<le> 27" "0 \<le> ks" by simp_all
  from NewRSis_well_formed[OF this assms(2,3), of X seed] obtain r0 where
    "NewRSis X seed ld lb ks = Inr (r0, None)" "well_formed r0" "buffer r0 = []"
    "Degree r0 = 2 ^ nat ld" "length (A r0) = nat ks" "LogTwoBound r0 = lb"
    "NbBytesToSum r0 = (lb * 2 ^ nat ld * ks) div 8" by blast
  with assms(1) show "e = None" and "well_formed r" and "buffer r = []" and "Degree r = 2 ^ nat ld"
    and "length (A r) = nat ks" and "LogTwoBound r = lb"
    and "NbBytesToSum r = (lb * 2 ^ nat ld * ks) div 8" by simp_all
qed

lemma Size_value:
  assumes "well_formed r" and "A r \<noteq> []"
  shows "Size r = Inr ((Degree r * 254) div 8)"
proof -
  obtain a0 as where a: "A r = a0 # as" using assms(2) by (cases "A r") auto
  have "int (length a0) = Degree r" using assms(1) a by (simp add: well_formed_def)
  moreover have "0 \<le> Degree r * 254" using assms(1) by (simp add: well_formed_def)
  ultimately show ?thesis by (simp add: Size_def a BitLen_fr_Modulus go_quo_nonneg)
qed

lemma assemble_cong:
  "\<lbrakk>buffer r = buffer s; NbBytesToSum r = NbBytesToSum s; LogTwoBound r = LogTwoBound s;
    Degree r = Degree s; length (A r) = length (A s)\<rbrakk> \<Longrightarrow> assemble r = assemble s"
  unfolding assemble_def padded_buffer_def by (simp only:)

lemma upt_8: "[0..<8] = [0,1,2,3,4,5,6,7]"
  by (simp add: upt_rec)

lemma replicate_8: "replicate 8 x = [x, x, x, x, x, x, x, x]"
  by (simp add: numeral_eq_Suc)

lemma assemble_leftover:
  "assemble \<lparr>buffer = [0xFF], A = [[]], AfftCosetBitreversed = [], LogTwoBound = 8,
             NbBytesToSum = 1, Domain = NewDomain 1 0, Degree = 1\<rparr> = Inr ([], [255])"
  by (simp add: assemble_def padded_buffer_def Let_def read_loop.simps unpack_byte_def
        coeff_loop.simps fill_buf_def fr_SetBytes_def be_nat_def go_quo_def go_rem_def
        fr_Modulus_def upt_8 replicate_8 drop_bit_eq_div push_bit_eq_mult)

lemma assemble_empty:
  "assemble \<lparr>buffer = [], A = [[]], AfftCosetBitreversed = [], LogTwoBound = 8,
             NbBytesToSum = 1, Domain = NewDomain 1 0, Degree = 1\<rparr> = Inr ([], [0])"
  by (simp add: assemble_def padded_buffer_def Let_def read_loop.simps unpack_byte_def
        coeff_loop.simps fill_buf_def fr_SetBytes_def be_nat_def go_quo_def go_rem_def
        fr_Modulus_def upt_8 replicate_8 drop_bit_eq_div push_bit_eq_mult)

lemma upt_4: "[0..<4] = [0, 1, 2, 3]"
  by (simp add: upt_rec)

lemma replicate_2: "replicate 2 x = [x, x]"
  by (simp add: numeral_eq_Suc)

text \<open>
  The example of the comment on \<open>Sum\<close>: with a bound of 4 bits the byte \<open>0xa4\<close> is
  decomposed into the coefficients 10 and 4.
\<close>

lemma assemble_comment_example:
  "assemble \<lparr>buffer = [0xA4], A = [[]], AfftCosetBitreversed = [], LogTwoBound = 4,
             NbBytesToSum = 1, Domain = NewDomain 2 0, Degree = 2\<rparr> = Inr ([], [10, 4])"
  by (simp add: assemble_def padded_buffer_def Let_def read_loop.simps unpack_byte_def
        coeff_loop.simps fill_buf_def fr_SetBytes_def be_nat_def go_quo_def go_rem_def
        fr_Modulus_def upt_8 upt_4 replicate_8 replicate_2 drop_bit_eq_div push_bit_eq_mult)

lemma padded_buffer_explicit:
  "padded_buffer r = buffer r @ replicate (nat (NbBytesToSum r) - length (buffer r)) 0"
proof (cases "int (length (buffer r)) < NbBytesToSum r")
  case True
  then have "nat (NbBytesToSum r - int (length (buffer r))) = nat (NbBytesToSum r) - length (buffer r)"
    by linarith
  then show ?thesis using True by (simp add: padded_buffer_def)
next
  case False
  then have "nat (NbBytesToSum r) - length (buffer r) = 0" by linarith
  then show ?thesis using False by (simp add: padded_buffer_def)
qed

lemma padded_buffer_idem:
  "padded_buffer (r\<lparr>buffer := padded_buffer r\<rparr>) = padded_buffer r"
proof -
  have "nat (NbBytesToSum r) - length (padded_buffer r) = 0"
    unfolding padded_buffer_explicit by simp
  then show ?thesis
    unfolding padded_buffer_explicit[of "r\<lparr>buffer := padded_buffer r\<rparr>"] by simp
qed

lemma assemble_padded_cong:
  "\<lbrakk>padded_buffer r = padded_buffer s; NbBytesToSum r = NbBytesToSum s;
    LogTwoBound r = LogTwoBound s; Degree r = Degree s; length (A r) = length (A s)\<rbrakk>
   \<Longrightarrow> assemble r = assemble s"
  unfolding assemble_def by (simp only:)

lemma hash_loop_buffer:
  "hash_loop X (r\<lparr>buffer := w\<rparr>) i m res = hash_loop X r i m res"
proof (induction X r i m res rule: hash_loop.induct)
  case (1 X r i m res)
  show ?case
  proof (cases "i < length (AfftCosetBitreversed r)")
    case False
    then show ?thesis by (simp add: hash_loop.simps[of X _ i])
  next
    case True
    show ?thesis
      apply (subst hash_loop.simps[of X "r\<lparr>buffer := w\<rparr>"])
      apply (subst hash_loop.simps[of X r])
      using True "1.IH" by (auto simp: Let_def split: sum.splits)
  qed
qed

lemma Sum_of_padded_buffer:
  "Sum X (r\<lparr>buffer := padded_buffer r\<rparr>) b = Sum X r b"
proof -
  have "assemble (r\<lparr>buffer := padded_buffer r\<rparr>) = assemble r"
    by (rule assemble_padded_cong) (simp_all add: padded_buffer_idem)
  then show ?thesis unfolding Sum_def
    by (auto simp: hash_loop_buffer Let_def split: sum.splits prod.splits)
qed

lemma NewRSis_unit_services: "NewRSis unit_services 5 0 8 1 = Inr (\<lparr>buffer = [], A = [[1]], AfftCosetBitreversed = [[1]], LogTwoBound = 8,
   NbBytesToSum = 1, Domain = NewDomain 1 (fr_Exp rootOfUnity28 134217728), Degree = 1\<rparr>, None)"
  by (simp add: NewRSis_def Let_def genRandom_def fr_SetBytes_def be_nat_def in_place_def go_copy_def
       go_quo_def fr_Modulus_def unit_services_def int64_in_range)

lemma upt_32: "[0..<32] = [0,1,2,3,4,5,6,7,8,9,10,11,12,13,14,15,16,17,18,19,20,21,22,23,24,25,26,27,28,29,30,31]"
  by (simp add: upt_rec)

lemma Sum_unit_services_leftover: "\<exists>out. Sum unit_services \<lparr>buffer = [0xFF], A = [[1]], AfftCosetBitreversed = [[1]], LogTwoBound = 8,
   NbBytesToSum = 1, Domain = NewDomain 1 (fr_Exp rootOfUnity28 134217728), Degree = 1\<rparr> [] = Inr (\<lparr>buffer = [], A = [[1]], AfftCosetBitreversed = [[1]], LogTwoBound = 8,
   NbBytesToSum = 1, Domain = NewDomain 1 (fr_Exp rootOfUnity28 134217728), Degree = 1\<rparr>, out) \<and> last out = 255"
  by (simp add: Sum_def assemble_def padded_buffer_def Let_def read_loop.simps unpack_byte_def
        coeff_loop.simps fill_buf_def fr_SetBytes_def be_nat_def go_quo_def go_rem_def
        fr_Modulus_def upt_8 replicate_8 drop_bit_eq_div push_bit_eq_mult
        hash_loop.simps MulMod_def fr_Mul_def fr_Add_def in_place_def go_copy_def unit_services_def fr_Bytes_def fr_Bytes_len_def upt_32)

lemma Sum_unit_services_empty: "\<exists>out. Sum unit_services \<lparr>buffer = [], A = [[1]], AfftCosetBitreversed = [[1]], LogTwoBound = 8,
   NbBytesToSum = 1, Domain = NewDomain 1 (fr_Exp rootOfUnity28 134217728), Degree = 1\<rparr> [] = Inr (\<lparr>buffer = [], A = [[1]], AfftCosetBitreversed = [[1]], LogTwoBound = 8,
   NbBytesToSum = 1, Domain = NewDomain 1 (fr_Exp rootOfUnity28 134217728), Degree = 1\<rparr>, out) \<and> last out = 0"
  by (simp add: Sum_def assemble_def padded_buffer_def Let_def read_loop.simps unpack_byte_def
        coeff_loop.simps fill_buf_def fr_SetBytes_def be_nat_def go_quo_def go_rem_def
        fr_Modulus_def upt_8 replicate_8 drop_bit_eq_div push_bit_eq_mult
        hash_loop.simps MulMod_def fr_Mul_def fr_Add_def in_place_def go_copy_def unit_services_def fr_Bytes_def fr_Bytes_len_def upt_32)

text \<open>
  Where the product wraps around: with a bound of \<open>2 ^ 62\<close> bits, degree 2 and one row the
  product is \<open>- 2 ^ 63\<close>, \<open>NbBytesToSum\<close> is \<open>- 2 ^ 60\<close>, and \<open>Sum\<close> panics on the
  negative length of \<open>mBits\<close>.
\<close>

lemma int64_wraps: "int64 (2 ^ 63) = - (2 ^ 63)"
  by (simp add: int64_def)

lemma NewRSis_product_wraps:
  "\<forall>X. \<exists>r. NewRSis X 5 1 (2 ^ 62) 1 = Inr (r, None) \<and> NbBytesToSum r = - (2 ^ 60)
         \<and> Sum X r [] = Inl NegativeLen"
proof
  fix X
  from NewRSis_returns[of 1 1 X 5 "2 ^ 62"] obtain r where
    r: "NewRSis X 5 1 (2 ^ 62) 1 = Inr (r, None)"
    and n: "NbBytesToSum r = go_quo (int64 (int64 (2 ^ 62 * 2 ^ nat 1) * 1)) 8" by auto
  have "int64 (int64 (2 ^ 62 * 2 ^ nat 1) * 1) = - (2 ^ 63)"
    using int64_wraps by (simp add: int64_in_range)
  then have n': "NbBytesToSum r = - (2 ^ 60)" using n by (simp add: go_quo_def)
  have "assemble r = Inl NegativeLen" by (simp add: assemble_def n')
  then have "Sum X r [] = Inl NegativeLen" by (simp add: Sum_def)
  then show "\<exists>r. NewRSis X 5 1 (2 ^ 62) 1 = Inr (r, None) \<and> NbBytesToSum r = - (2 ^ 60)
         \<and> Sum X r [] = Inl NegativeLen" using r n' by blast
qed

text \<open>
  What \<open>Sum\<close> appends, in general: on an instance that \<open>NewRSis\<close> returned for a bound of
  at least one bit and a product \<open>logTwoBound * degree * keySize\<close> that fits 64 bits,
  whatever has been written to its buffer, \<open>Sum b\<close> is \<open>degree * 32\<close> bytes longer than \<open>b\<close>;
  and \<open>Size\<close> stays below that on every such instance with a key.
\<close>

lemma Sum_length_of_NewRSis:
  assumes "NewRSis X seed ld lb ks = Inr (r, e)" and "1 \<le> lb"
    and "lb * 2 ^ nat ld * ks < 2 ^ 63"
  shows "\<exists>r' out. Sum X (r\<lparr>buffer := w\<rparr>) b = Inr (r', out)
           \<and> int (length out) - int (length b) = Degree r * int fr_Bytes_len
           \<and> Degree r = 2 ^ nat ld \<and> fr_Bytes_len = 32"
proof -
  have wf: "well_formed (r\<lparr>buffer := w\<rparr>)" using NewRSis_InrD(2)[OF assms] by simp
  from Sum_returns[OF wf, of X b] obtain r' out where
    s: "Sum X (r\<lparr>buffer := w\<rparr>) b = Inr (r', out)" by blast
  have D: "Degree r = 2 ^ nat ld" using NewRSis_InrD(4)[OF assms] .
  have "length out = length b + fr_Bytes_len * nat (Degree (r\<lparr>buffer := w\<rparr>))"
    using Sum_result(2)[OF s] .
  then have "int (length out) - int (length b) = Degree r * int fr_Bytes_len"
    using D by simp
  then show ?thesis using s D by (simp add: fr_Bytes_len_def)
qed

lemma Size_below_Sum_length:
  assumes "NewRSis X seed ld lb ks = Inr (r, e)" and "1 \<le> lb" and "1 \<le> ks"
    and "lb * 2 ^ nat ld * ks < 2 ^ 63"
  shows "\<exists>n. Size r = Inr n \<and> n = (Degree r * 254) div 8 \<and> n < Degree r * int fr_Bytes_len"
proof -
  note f = NewRSis_InrD[OF assms(1,2,4)]
  have "A r \<noteq> []" using f(5) assms(3) by auto
  then have "Size r = Inr ((Degree r * 254) div 8)" using Size_value[OF f(2)] by simp
  moreover have "1 \<le> Degree r" using f(2) by (simp add: well_formed_def)
  then have "(Degree r * 254) div 8 < Degree r * int fr_Bytes_len"
    by (simp add: fr_Bytes_len_def)
  ultimately show ?thesis by simp
qed

section \<open>Properties of the Ring-SIS hash\<close>

text \<open>
  C9. \<open>Reset\<close> empties the byte buffer and leaves the key \<open>A\<close>, its coset-NTT form
  \<open>AfftCosetBitreversed\<close>, the domain, the degree, \<open>LogTwoBound\<close> and \<open>NbBytesToSum\<close>
  as they were.
\<close>

theorem Reset_frame:
  "buffer (Reset r) = [] \<and> A (Reset r) = A r
   \<and> AfftCosetBitreversed (Reset r) = AfftCosetBitreversed r
   \<and> Domain (Reset r) = Domain r \<and> Degree (Reset r) = Degree r
   \<and> LogTwoBound (Reset r) = LogTwoBound r \<and> NbBytesToSum (Reset r) = NbBytesToSum r
   \<and> Reset r = r\<lparr>buffer := []\<rparr>"
  by (simp add: Reset_def)




text \<open>
  C1, at the failing input. \<open>Size\<close> does not return the number of bytes that \<open>Sum\<close>
  appends, against its own comment (``Size returns the number of bytes Sum will
  return''). On the instance of \<open>TestRSis\<close> (seed 5, degree 2, bound 4, key size 8) \<open>Sum\<close>
  appends 64 bytes, one serialised field element of 32 bytes for each of the two
  coefficients of the digest, while \<open>Size\<close> returns \<open>2 * 254 / 8 = 63\<close>; the closed form
  \<open>d * (254 / 8)\<close> of the claim is 62.
\<close>

theorem Size_differs_from_Sum:
  "\<forall>X. \<exists>r r' out. NewRSis X 5 1 4 8 = Inr (r, None) \<and> Sum X r [] = Inr (r', out)
      \<and> length out = 64 \<and> Size r = Inr 63 \<and> Degree r * int (BitLen fr_Modulus div 8) = 62"
proof
  fix X
  obtain r where r: "NewRSis X 5 1 4 8 = Inr (r, None)"
    using NewRSis_returns[of 1 8 X 5 4] by auto
  have one: "(1::int) \<le> 4" and fits: "(4::int) * 2 ^ nat 1 * 8 < 2 ^ 63" by simp_all
  note f = NewRSis_InrD[OF r one fits]
  from Sum_returns[OF f(2), of X "[]"] obtain r' out where s: "Sum X r [] = Inr (r', out)" by blast
  have "length out = 64" using Sum_result(2)[OF s] f(4) by (simp add: fr_Bytes_len_def)
  moreover have "A r \<noteq> []" using f(5) by auto
  then have "Size r = Inr 63" using Size_value[OF f(2)] f(4) by simp
  moreover have "Degree r * int (BitLen fr_Modulus div 8) = 62"
    using f(4) by (simp add: BitLen_fr_Modulus)
  ultimately show "\<exists>r r' out. NewRSis X 5 1 4 8 = Inr (r, None) \<and> Sum X r [] = Inr (r', out)
      \<and> length out = 64 \<and> Size r = Inr 63 \<and> Degree r * int (BitLen fr_Modulus div 8) = 62"
    using r s by blast
qed

text \<open>
  C8. In every execution of \<open>Sum\<close> that returns, the vector \<open>m\<close> that is hashed has
  \<open>Degree * keySize\<close> coefficients and every one of them is below
  \<open>2 ^ LogTwoBound\<close>; and \<open>Sum\<close> returns on every well-formed instance.
\<close>

theorem coefficients_bounded:
  "(\<forall>r' out. Sum X r b = Inr (r', out) \<longrightarrow>
      (\<exists>rest m. assemble r = Inr (rest, m) \<and> int (length m) = Degree r * int (length (A r))
         \<and> (\<forall>k < length m. m ! k < 2 ^ nat (LogTwoBound r))))
   \<and> (well_formed r \<longrightarrow> (\<exists>r' out. Sum X r b = Inr (r', out)))"
proof (intro conjI impI allI)
  fix r' out
  assume "Sum X r b = Inr (r', out)"
  then obtain rest m where a: "assemble r = Inr (rest, m)" and d: "0 \<le> Degree r"
    by (rule Sum_InrD)
  have "length m = nat (Degree r * int (length (A r)))" using assemble_result(2)[OF a] .
  moreover have "0 \<le> Degree r * int (length (A r))" using d by simp
  ultimately have "int (length m) = Degree r * int (length (A r))" by simp
  moreover have "\<forall>k < length m. m ! k < 2 ^ nat (LogTwoBound r)"
    using assemble_result(3)[OF a] by simp
  ultimately show "\<exists>rest m. assemble r = Inr (rest, m) \<and> int (length m) = Degree r * int (length (A r))
         \<and> (\<forall>k < length m. m ! k < 2 ^ nat (LogTwoBound r))" using a by blast
next
  assume "well_formed r"
  then show "\<exists>r' out. Sum X r b = Inr (r', out)" by (rule Sum_returns)
qed

theorem coefficients_bounded_witness:
  "\<forall>X. \<exists>r r' out rest m. NewRSis X 5 1 4 8 = Inr (r, None)
      \<and> Sum X (r\<lparr>buffer := [0xa1, 0x90, 0xff, 0x0a, 0x13, 0x59, 0x79, 0xcc]\<rparr>) [] = Inr (r', out)
      \<and> assemble (r\<lparr>buffer := [0xa1, 0x90, 0xff, 0x0a, 0x13, 0x59, 0x79, 0xcc]\<rparr>) = Inr (rest, m)
      \<and> length m = 16 \<and> m ! 0 < 16 \<and> m ! 15 < 16"
proof
  fix X
  let ?w = "[0xa1, 0x90, 0xff, 0x0a, 0x13, 0x59, 0x79, 0xcc] :: byte list"
  obtain r where r: "NewRSis X 5 1 4 8 = Inr (r, None)"
    using NewRSis_returns[of 1 8 X 5 4] by auto
  have one: "(1::int) \<le> 4" and fits: "(4::int) * 2 ^ nat 1 * 8 < 2 ^ 63" by simp_all
  note f = NewRSis_InrD[OF r one fits]
  have wf: "well_formed (r\<lparr>buffer := ?w\<rparr>)" using f(2) by simp
  note t = coefficients_bounded[of X "r\<lparr>buffer := ?w\<rparr>" "[]"]
  from t wf obtain r' out where s: "Sum X (r\<lparr>buffer := ?w\<rparr>) [] = Inr (r', out)" by blast
  with t obtain rest m where a: "assemble (r\<lparr>buffer := ?w\<rparr>) = Inr (rest, m)"
    and l: "int (length m) = Degree (r\<lparr>buffer := ?w\<rparr>) * int (length (A (r\<lparr>buffer := ?w\<rparr>)))"
    and bd: "\<forall>k < length m. m ! k < 2 ^ nat (LogTwoBound (r\<lparr>buffer := ?w\<rparr>))" by blast
  have l16: "length m = 16" using l f(4,5) by simp
  then have "m ! 0 < 16" and "m ! 15 < 16" using bd f(6) by simp_all
  with r s a l16 show "\<exists>r r' out rest m. NewRSis X 5 1 4 8 = Inr (r, None)
      \<and> Sum X (r\<lparr>buffer := ?w\<rparr>) [] = Inr (r', out)
      \<and> assemble (r\<lparr>buffer := ?w\<rparr>) = Inr (rest, m)
      \<and> length m = 16 \<and> m ! 0 < 16 \<and> m ! 15 < 16" by blast
qed

text \<open>
  C6, as the code has it. \<open>Sum\<close> reads \<open>NbBytesToSum\<close> bytes from the buffer and no more.
  After \<open>Write w1\<close> and \<open>Sum\<close>, a following \<open>Write w2\<close> and \<open>Sum\<close> return what \<open>Sum\<close>
  returns on the bytes of \<open>w1\<close> beyond the first \<open>NbBytesToSum\<close> followed by \<open>w2\<close>; when
  no more than \<open>NbBytesToSum\<close> bytes were buffered at the first \<open>Sum\<close>, that is the
  digest of \<open>w2\<close> alone, which is also the digest of \<open>w2\<close> padded with zero bytes to
  \<open>NbBytesToSum\<close>.
\<close>

theorem Sum_drains_NbBytesToSum:
  assumes "well_formed r"
  shows "\<exists>r1 out1 r2 out2.
           Sum X (fst (Write r w1)) b1 = Inr (r1, out1)
         \<and> buffer r1 = drop (nat (NbBytesToSum r)) (buffer r @ w1)
         \<and> Sum X (fst (Write r1 w2)) b2 = Inr (r2, out2)
         \<and> Sum X (r\<lparr>buffer := drop (nat (NbBytesToSum r)) (buffer r @ w1) @ w2\<rparr>) b2 = Inr (r2, out2)
         \<and> (int (length (buffer r @ w1)) \<le> NbBytesToSum r \<longrightarrow>
              Sum X (r\<lparr>buffer := w2\<rparr>) b2 = Inr (r2, out2)
            \<and> Sum X (r\<lparr>buffer := w2 @ replicate (nat (NbBytesToSum r) - length w2) 0\<rparr>) b2
                = Inr (r2, out2))"
proof -
  let ?n = "nat (NbBytesToSum r)"
  have wf1: "well_formed (fst (Write r w1))" using assms by simp
  from Sum_returns[OF wf1, of X b1] obtain r1 out1 where
    s1: "Sum X (fst (Write r w1)) b1 = Inr (r1, out1)" by blast
  have r1: "r1 = r\<lparr>buffer := drop ?n (buffer r @ w1)\<rparr>"
    using Sum_result(1)[OF s1] by simp
  have wf2: "well_formed (fst (Write r1 w2))" using assms r1 by simp
  from Sum_returns[OF wf2, of X b2] obtain r2 out2 where
    s2: "Sum X (fst (Write r1 w2)) b2 = Inr (r2, out2)" by blast
  have w: "fst (Write r1 w2) = r\<lparr>buffer := drop ?n (buffer r @ w1) @ w2\<rparr>"
    using r1 by simp
  have pad: "Sum X (r\<lparr>buffer := w2 @ replicate (?n - length w2) 0\<rparr>) b2
               = Sum X (r\<lparr>buffer := w2\<rparr>) b2"
    using Sum_of_padded_buffer[of X "r\<lparr>buffer := w2\<rparr>" b2]
    by (simp add: padded_buffer_explicit)
  have short: "int (length (buffer r @ w1)) \<le> NbBytesToSum r \<longrightarrow>
          Sum X (r\<lparr>buffer := w2\<rparr>) b2 = Inr (r2, out2)
        \<and> Sum X (r\<lparr>buffer := w2 @ replicate (?n - length w2) 0\<rparr>) b2 = Inr (r2, out2)"
  proof
    assume "int (length (buffer r @ w1)) \<le> NbBytesToSum r"
    then have "length (buffer r @ w1) \<le> ?n" by linarith
    then have "drop ?n (buffer r @ w1) = []" by simp
    then have "Sum X (r\<lparr>buffer := w2\<rparr>) b2 = Inr (r2, out2)" using s2 w by simp
    then show "Sum X (r\<lparr>buffer := w2\<rparr>) b2 = Inr (r2, out2)
        \<and> Sum X (r\<lparr>buffer := w2 @ replicate (?n - length w2) 0\<rparr>) b2 = Inr (r2, out2)"
      using pad by simp
  qed
  show ?thesis using s1 r1 s2 w short by (intro exI[of _ r1] exI[of _ out1] exI[of _ r2] exI[of _ out2]) simp
qed

theorem Sum_drains_NbBytesToSum_witness:
  "\<forall>X. \<exists>r r1 out1 r2 out2. NewRSis X 5 0 8 1 = Inr (r, None)
      \<and> Sum X (fst (Write r [0xA4])) [] = Inr (r1, out1) \<and> buffer r1 = []
      \<and> Sum X (fst (Write r1 [0x17])) [] = Inr (r2, out2)
      \<and> Sum X (r\<lparr>buffer := [0x17]\<rparr>) [] = Inr (r2, out2)"
proof
  fix X
  obtain r where r: "NewRSis X 5 0 8 1 = Inr (r, None)"
    using NewRSis_returns[of 0 1 X 5 8] by auto
  have one: "(1::int) \<le> 8" and fits: "(8::int) * 2 ^ nat 0 * 1 < 2 ^ 63" by simp_all
  note f = NewRSis_InrD[OF r one fits]
  have n: "NbBytesToSum r = 1" using f(7) by simp
  from Sum_drains_NbBytesToSum[OF f(2), of X "[0xA4]" "[]" "[0x17]" "[]"]
  obtain r1 out1 r2 out2 where
    "Sum X (fst (Write r [0xA4])) [] = Inr (r1, out1)"
    "buffer r1 = drop (nat (NbBytesToSum r)) (buffer r @ [0xA4])"
    "Sum X (fst (Write r1 [0x17])) [] = Inr (r2, out2)"
    "int (length (buffer r @ [0xA4])) \<le> NbBytesToSum r \<longrightarrow>
              Sum X (r\<lparr>buffer := [0x17]\<rparr>) [] = Inr (r2, out2)
            \<and> Sum X (r\<lparr>buffer := [0x17] @ replicate (nat (NbBytesToSum r) - length [0x17::byte]) 0\<rparr>) []
                = Inr (r2, out2)" by blast
  then show "\<exists>r r1 out1 r2 out2. NewRSis X 5 0 8 1 = Inr (r, None)
      \<and> Sum X (fst (Write r [0xA4])) [] = Inr (r1, out1) \<and> buffer r1 = []
      \<and> Sum X (fst (Write r1 [0x17])) [] = Inr (r2, out2)
      \<and> Sum X (r\<lparr>buffer := [0x17]\<rparr>) [] = Inr (r2, out2)"
    using r n f(3) by (intro exI[of _ r] exI[of _ r1] exI[of _ out1] exI[of _ r2] exI[of _ out2]) simp
qed

text \<open>
  C6, as the claim states it, fails when more than \<open>NbBytesToSum\<close> bytes are buffered.
  On the instance with seed 5, degree 1, bound 8 and key size 1, \<open>NbBytesToSum\<close> is 1;
  after \<open>Write [0x00, 0xFF]\<close> and \<open>Sum\<close> the byte \<open>0xFF\<close> is still buffered, and the next
  \<open>Sum\<close> (after writing nothing) hashes the coefficient 255, where the digest of the
  empty input alone hashes the coefficient 0. With the collaborators fixed to
  \<open>unit_services\<close> the two digests differ in their last byte.
\<close>

theorem Sum_leaves_excess_bytes:
  "(\<forall>X. \<exists>r r1 out1. NewRSis X 5 0 8 1 = Inr (r, None) \<and> NbBytesToSum r = 1
      \<and> Sum X (fst (Write r [0, 0xFF])) [] = Inr (r1, out1)
      \<and> buffer r1 = [0xFF]
      \<and> assemble (fst (Write r1 [])) = Inr ([], [255])
      \<and> assemble (fst (Write r [])) = Inr ([], [0]))
   \<and> (\<exists>r r1 out1 r2 out2 r3 out3. NewRSis unit_services 5 0 8 1 = Inr (r, None)
      \<and> Sum unit_services (fst (Write r [0, 0xFF])) [] = Inr (r1, out1)
      \<and> Sum unit_services (fst (Write r1 [])) [] = Inr (r2, out2)
      \<and> Sum unit_services (fst (Write r [])) [] = Inr (r3, out3)
      \<and> last out2 = 255 \<and> last out3 = 0)"
proof
  show "\<forall>X. \<exists>r r1 out1. NewRSis X 5 0 8 1 = Inr (r, None) \<and> NbBytesToSum r = 1
      \<and> Sum X (fst (Write r [0, 0xFF])) [] = Inr (r1, out1)
      \<and> buffer r1 = [0xFF]
      \<and> assemble (fst (Write r1 [])) = Inr ([], [255])
      \<and> assemble (fst (Write r [])) = Inr ([], [0])"
  proof
    fix X
    obtain r where r: "NewRSis X 5 0 8 1 = Inr (r, None)"
      using NewRSis_returns[of 0 1 X 5 8] by auto
    have one: "(1::int) \<le> 8" and fits: "(8::int) * 2 ^ nat 0 * 1 < 2 ^ 63" by simp_all
    note f = NewRSis_InrD[OF r one fits]
    have n: "NbBytesToSum r = 1" using f(7) by simp
    have d: "Degree r = 1" using f(4) by simp
    have k: "length (A r) = 1" using f(5) by simp
    have wf: "well_formed (fst (Write r [0, 0xFF]))" using f(2) by simp
    from Sum_returns[OF wf, of X "[]"] obtain r1 out1 where
      s: "Sum X (fst (Write r [0, 0xFF])) [] = Inr (r1, out1)" by blast
    have r1: "r1 = r\<lparr>buffer := [0xFF]\<rparr>" using Sum_result(1)[OF s] f(3) n by simp
    have "assemble (fst (Write r1 [])) = assemble \<lparr>buffer = [0xFF], A = [[]], AfftCosetBitreversed = [],
            LogTwoBound = 8, NbBytesToSum = 1, Domain = NewDomain 1 0, Degree = 1\<rparr>"
      by (rule assemble_cong) (simp_all add: r1 n d k f(6))
    then have a1: "assemble (fst (Write r1 [])) = Inr ([], [255])" by (simp only: assemble_leftover)
    have "assemble (fst (Write r [])) = assemble \<lparr>buffer = [], A = [[]], AfftCosetBitreversed = [],
            LogTwoBound = 8, NbBytesToSum = 1, Domain = NewDomain 1 0, Degree = 1\<rparr>"
      by (rule assemble_cong) (simp_all add: n d k f(3,6))
    then have a2: "assemble (fst (Write r [])) = Inr ([], [0])" by (simp only: assemble_empty)
    show "\<exists>r r1 out1. NewRSis X 5 0 8 1 = Inr (r, None) \<and> NbBytesToSum r = 1
        \<and> Sum X (fst (Write r [0, 0xFF])) [] = Inr (r1, out1)
        \<and> buffer r1 = [0xFF]
        \<and> assemble (fst (Write r1 [])) = Inr ([], [255])
        \<and> assemble (fst (Write r [])) = Inr ([], [0])"
      using r n s r1 a1 a2 by (intro exI[of _ r] exI[of _ r1] exI[of _ out1]) simp
  qed
next
  let ?r = "\<lparr>buffer = [], A = [[1]], AfftCosetBitreversed = [[1]], LogTwoBound = 8,
     NbBytesToSum = 1, Domain = NewDomain 1 (fr_Exp rootOfUnity28 134217728), Degree = 1\<rparr>"
  have r: "NewRSis unit_services 5 0 8 1 = Inr (?r, None)" by (rule NewRSis_unit_services)
  have wf: "well_formed (fst (Write ?r [0, 0xFF]))" by (simp add: well_formed_def)
  from Sum_returns[OF wf, of unit_services "[]"] obtain r1 out1 where
    s1: "Sum unit_services (fst (Write ?r [0, 0xFF])) [] = Inr (r1, out1)" by blast
  have r1: "r1 = ?r\<lparr>buffer := [0xFF]\<rparr>" using Sum_result(1)[OF s1] by simp
  from Sum_unit_services_leftover obtain out2 where
    s2: "Sum unit_services (?r\<lparr>buffer := [0xFF]\<rparr>) [] = Inr (?r, out2)" and l2: "last out2 = 255"
    by auto
  from Sum_unit_services_empty obtain out3 where
    s3: "Sum unit_services ?r [] = Inr (?r, out3)" and l3: "last out3 = 0"
    by auto
  have w2: "fst (Write r1 []) = ?r\<lparr>buffer := [0xFF]\<rparr>" by (simp add: r1)
  have w3: "fst (Write ?r []) = ?r" by simp
  show "\<exists>r r1 out1 r2 out2 r3 out3. NewRSis unit_services 5 0 8 1 = Inr (r, None)
      \<and> Sum unit_services (fst (Write r [0, 0xFF])) [] = Inr (r1, out1)
      \<and> Sum unit_services (fst (Write r1 [])) [] = Inr (r2, out2)
      \<and> Sum unit_services (fst (Write r [])) [] = Inr (r3, out3)
      \<and> last out2 = 255 \<and> last out3 = 0"
    using r s1 s2 s3 l2 l3 unfolding w2 w3
    by (intro exI[of _ ?r] exI[of _ r1] exI[of _ out1] exI[of _ ?r] exI[of _ out2] exI[of _ ?r] exI[of _ out3])
       (simp only: w2 w3 simp_thms)
qed

section \<open>Auxiliary facts about the multi-column lookup\<close>

lemma next_power_of_two_spec:
  assumes "p = 2 ^ k" and "\<forall>j. m \<le> 2 ^ j \<longrightarrow> p \<le> 2 ^ j"
  shows "\<exists>k'. next_power_of_two p m = 2 ^ k' \<and> m \<le> 2 ^ k'
            \<and> (\<forall>j. m \<le> 2 ^ j \<longrightarrow> next_power_of_two p m \<le> 2 ^ j)"
  using assms
proof (induction p m arbitrary: k rule: next_power_of_two.induct)
  case (1 p m)
  show ?case
  proof (cases "0 < p \<and> p < m")
    case False
    then have mp: "m \<le> p" using "1.prems"(1) by simp
    have stop: "next_power_of_two p m = p" using False by (subst next_power_of_two.simps) auto
    show ?thesis unfolding stop using mp "1.prems" by auto
  next
    case True
    have p2: "2 * p = 2 ^ Suc k" using "1.prems"(1) by simp
    have min: "\<forall>j. m \<le> 2 ^ j \<longrightarrow> 2 * p \<le> 2 ^ j"
    proof (intro allI impI)
      fix j assume mj: "m \<le> (2::nat) ^ j"
      have "(2::nat) ^ k < m" using True "1.prems"(1) by simp
      with mj have "(2::nat) ^ k < 2 ^ j" by linarith
      then have "k < j" by simp
      then have "Suc k \<le> j" by simp
      then have "(2::nat) ^ Suc k \<le> 2 ^ j" by (rule power_increasing) simp
      then show "2 * p \<le> 2 ^ j" using p2 by simp
    qed
    have step: "next_power_of_two p m = next_power_of_two (2 * p) m"
      using True by (subst next_power_of_two.simps) auto
    from "1.IH"[OF True p2 min] show ?thesis unfolding step .
  qed
qed

lemma domain_Cardinality_spec:
  "\<exists>k. domain_Cardinality m = 2 ^ k \<and> m \<le> 2 ^ k
        \<and> (\<forall>j. m \<le> 2 ^ j \<longrightarrow> domain_Cardinality m \<le> 2 ^ j)"
  unfolding domain_Cardinality_def
  by (rule next_power_of_two_spec[of 1 0]) simp_all

lemma domain_Cardinality_ge: "m \<le> domain_Cardinality m"
  using domain_Cardinality_spec[of m] by auto

lemma domain_Cardinality_pos: "0 < domain_Cardinality m"
  using domain_Cardinality_spec[of m] by auto

lemma rows_differ_iff: "rows_differ s rows \<longleftrightarrow> (\<exists>row \<in> set rows. length row \<noteq> s)"
  by (induction rows) auto

lemma rows_differ_drop:
  "rows_differ (length (f ! 0)) (drop 1 f) \<longleftrightarrow> (\<exists>i < length f. length (f ! i) \<noteq> length (f ! 0))"
proof (cases f)
  case Nil
  then show ?thesis by simp
next
  case (Cons r rs)
  have "(\<exists>row \<in> set rs. length row \<noteq> length r) \<longleftrightarrow> (\<exists>i < length (r # rs). length ((r # rs) ! i) \<noteq> length r)"
  proof
    assume "\<exists>row \<in> set rs. length row \<noteq> length r"
    then obtain i where "i < length rs" "length (rs ! i) \<noteq> length r" by (auto simp: in_set_conv_nth)
    then have "Suc i < length (r # rs) \<and> length ((r # rs) ! Suc i) \<noteq> length r" by simp
    then show "\<exists>i < length (r # rs). length ((r # rs) ! i) \<noteq> length r" by blast
  next
    assume "\<exists>i < length (r # rs). length ((r # rs) ! i) \<noteq> length r"
    then obtain i where i: "i < length (r # rs)" "length ((r # rs) ! i) \<noteq> length r" by blast
    then obtain i' where "i = Suc i'" by (cases i) auto
    then show "\<exists>row \<in> set rs. length row \<noteq> length r" using i by auto
  qed
  then show ?thesis using Cons by (simp add: rows_differ_iff)
qed

lemma pad_loop_nonempty:
  assumes "src \<noteq> []" and "j \<le> n" and "length dst = n"
  shows "pad_loop src j n dst = Inr (take j dst @ replicate (n - j) (last src))"
  using assms
proof (induction src j n dst rule: pad_loop.induct)
  case (1 src j n dst)
  show ?case
  proof (cases "j < n")
    case False
    then have jn: "j = n" using "1.prems"(2) by simp
    have "pad_loop src j n dst = Inr dst" using False by (subst pad_loop.simps) auto
    then show ?thesis using jn "1.prems"(3) by simp
  next
    case True
    let ?dst = "dst[j := src ! (length src - 1)]"
    have l: "src ! (length src - 1) = last src" using "1.prems"(1) by (simp add: last_conv_nth)
    have "pad_loop src (Suc j) n ?dst = Inr (take (Suc j) ?dst @ replicate (n - Suc j) (last src))"
      using "1.IH" True "1.prems" by simp
    moreover have "take (Suc j) ?dst = take j dst @ [last src]"
      using True "1.prems"(3) l by (simp add: take_Suc_conv_app_nth)
    moreover have "replicate (n - j) (last src) = last src # replicate (n - Suc j) (last src)"
      using True by (metis Suc_diff_Suc replicate_Suc)
    moreover have "pad_loop src j n dst = pad_loop src (Suc j) n ?dst"
      using True "1.prems"(1) by (subst pad_loop.simps) auto
    ultimately show ?thesis by simp
  qed
qed

lemma pad_row_nonempty:
  assumes "row \<noteq> []" and "length row \<le> n"
  shows "pad_row n row = Inr (repeat_last n row)"
proof -
  have "pad_row n row = Inr (take (length row) (go_copy (replicate n 0) row)
                               @ replicate (n - length row) (last row))"
    unfolding pad_row_def using assms by (intro pad_loop_nonempty) simp_all
  moreover have "take (length row) (go_copy (replicate n 0) row) = row"
    using assms(2) by (simp add: go_copy_def)
  ultimately show ?thesis by (simp add: repeat_last_def)
qed

lemma pad_row_empty: "0 < n \<Longrightarrow> pad_row n [] = Inl IndexOutOfRange"
  by (simp add: pad_row_def pad_loop.simps[of "[]" 0])

lemma length_repeat_last: "length row \<le> n \<Longrightarrow> length (repeat_last n row) = n"
  by (simp add: repeat_last_def)

lemma fold_inner_column:
  assumes "i < length ff" and "i < length ft"
  shows "fold_inner lam lfs lts i k (ff, ft)
           = (ff[i := ff ! i * lam ^ k + (\<Sum>r<k. lam ^ r * lfs ! r ! i)],
              ft[i := ft ! i * lam ^ k + (\<Sum>r<k. lam ^ r * lts ! r ! i)])"
  using assms
proof (induction k arbitrary: ff ft)
  case 0
  then show ?case by simp
next
  case (Suc k)
  let ?a = "ff ! i * lam + lfs ! k ! i" and ?b = "ft ! i * lam + lts ! k ! i"
  have "fold_inner lam lfs lts i (Suc k) (ff, ft) = fold_inner lam lfs lts i k (ff[i := ?a], ft[i := ?b])"
    by simp
  also have "\<dots> = (ff[i := ?a * lam ^ k + (\<Sum>r<k. lam ^ r * lfs ! r ! i)],
                    ft[i := ?b * lam ^ k + (\<Sum>r<k. lam ^ r * lts ! r ! i)])"
    using Suc.IH[of "ff[i := ?a]" "ft[i := ?b]"] Suc.prems by simp
  also have "?a * lam ^ k + (\<Sum>r<k. lam ^ r * lfs ! r ! i)
               = ff ! i * lam ^ Suc k + (\<Sum>r<Suc k. lam ^ r * lfs ! r ! i)"
    by (simp add: algebra_simps)
  also have "?b * lam ^ k + (\<Sum>r<k. lam ^ r * lts ! r ! i)
               = ft ! i * lam ^ Suc k + (\<Sum>r<Suc k. lam ^ r * lts ! r ! i)"
    by (simp add: algebra_simps)
  finally show ?case .
qed

lemma fold_columns:
  assumes "c \<le> n"
  shows "foldl (\<lambda>folded i. fold_inner lam lfs lts i k folded)
            (replicate n 0, replicate n 0) [0..<c]
         = (map (\<lambda>i. if i < c then (\<Sum>r<k. lam ^ r * lfs ! r ! i) else 0) [0..<n],
            map (\<lambda>i. if i < c then (\<Sum>r<k. lam ^ r * lts ! r ! i) else 0) [0..<n])"
  using assms
proof (induction c)
  case 0
  show ?case by (simp add: map_replicate_trivial)
next
  case (Suc c)
  let ?F = "\<lambda>c. map (\<lambda>i. if i < c then (\<Sum>r<k. lam ^ r * lfs ! r ! i) else 0) [0..<n]"
  let ?T = "\<lambda>c. map (\<lambda>i. if i < c then (\<Sum>r<k. lam ^ r * lts ! r ! i) else 0) [0..<n]"
  have c: "c < n" using Suc.prems by simp
  have prev: "foldl (\<lambda>folded i. fold_inner lam lfs lts i k folded)
            (replicate n 0, replicate n 0) [0..<c] = (?F c, ?T c)"
    using Suc.IH c by simp
  have "fold_inner lam lfs lts c k (?F c, ?T c)
          = ((?F c)[c := ?F c ! c * lam ^ k + (\<Sum>r<k. lam ^ r * lfs ! r ! c)],
             (?T c)[c := ?T c ! c * lam ^ k + (\<Sum>r<k. lam ^ r * lts ! r ! c)])"
    using c by (intro fold_inner_column) simp_all
  moreover have "(?F c)[c := ?F c ! c * lam ^ k + (\<Sum>r<k. lam ^ r * lfs ! r ! c)] = ?F (Suc c)"
    using c by (intro nth_equalityI) (auto simp: nth_list_update less_Suc_eq)
  moreover have "(?T c)[c := ?T c ! c * lam ^ k + (\<Sum>r<k. lam ^ r * lts ! r ! c)] = ?T (Suc c)"
    using c by (intro nth_equalityI) (auto simp: nth_list_update less_Suc_eq)
  ultimately show ?case using prev by simp
qed

lemma fold_tables_eq:
  "fold_tables lam n k lfs lts
     = (map (\<lambda>i. \<Sum>r<k. lam ^ r * lfs ! r ! i) [0..<n],
        map (\<lambda>i. \<Sum>r<k. lam ^ r * lts ! r ! i) [0..<n])"
  unfolding fold_tables_def using fold_columns[of n n lam lfs lts k] by simp

lemma horner_digest_Cons:
  "cs \<noteq> [] \<Longrightarrow> horner_digest X k (c # cs) = Add X (ScalarMultiplication X (horner_digest X k cs) k) c"
  by (cases cs) simp_all

lemma verify_fold_horner:
  "j < length ds \<Longrightarrow>
     verify_fold X k ds (int j - 1) (horner_digest X k (drop j ds)) = horner_digest X k ds"
proof (induction j)
  case 0
  show ?case by (subst verify_fold.simps) simp
next
  case (Suc j)
  have ne: "drop (Suc j) ds \<noteq> []" using Suc.prems by simp
  have d: "drop j ds = ds ! j # drop (Suc j) ds" using Suc.prems by (simp add: Cons_nth_drop_Suc)
  have "verify_fold X k ds (int (Suc j) - 1) (horner_digest X k (drop (Suc j) ds))
          = verify_fold X k ds (int j - 1)
              (Add X (ScalarMultiplication X (horner_digest X k (drop (Suc j) ds)) k) (ds ! j))"
    by (subst verify_fold.simps) simp
  also have "\<dots> = verify_fold X k ds (int j - 1) (horner_digest X k (drop j ds))"
    by (simp add: d horner_digest_Cons[OF ne])
  also have "\<dots> = horner_digest X k ds" using Suc.IH Suc.prems by simp
  finally show ?case .
qed

lemma verify_fold_from_last:
  assumes "ds \<noteq> []"
  shows "verify_fold X k ds (int (length ds) - 2) (ds ! nat (int (length ds) - 1)) = horner_digest X k ds"
proof -
  let ?j = "length ds - 1"
  have j: "?j < length ds" using assms by simp
  have "drop ?j ds = [ds ! ?j]" using assms j
    by (metis Cons_nth_drop_Suc Suc_diff_1 drop_all le_refl length_greater_0_conv)
  then have "horner_digest X k (drop ?j ds) = ds ! ?j" by simp
  moreover have "0 < length ds" using assms by simp
  then have "int ?j - 1 = int (length ds) - 2" by linarith
  moreover have "nat (int (length ds) - 1) = ?j" by simp
  ultimately show ?thesis using verify_fold_horner[OF j, of X k] by simp
qed

lemma rows_loop_step:
  assumes "i < nbRows" and "pad_row n (f ! i) = Inr lfs_i"
    and "snd (Commit X (coefficient_form X n lfs_i) srs) = None"
    and "pad_row n (t ! i) = Inr lts_i"
  shows "rows_loop X srs n f t i nbRows st =
           rows_loop X srs n f t (Suc i) nbRows
             (st\<lparr>st_fs := (st_fs st)[i := fst (Commit X (coefficient_form X n lfs_i) srs)],
                 st_lfs := (st_lfs st)[i := lfs_i],
                 st_committed := st_committed st @ [coefficient_form X n lfs_i],
                 st_lts := (st_lts st)[i := lts_i]\<rparr>)"
  using assms by (subst rows_loop.simps) (simp add: Let_def)

lemma rows_loop_completes:
  assumes "length f = nbRows" and "length t = nbRows"
    and "\<forall>row \<in> set f. row \<noteq> [] \<and> length row \<le> n"
    and "\<forall>row \<in> set t. row \<noteq> [] \<and> length row \<le> n"
    and "\<forall>row \<in> set f. snd (Commit X (coefficient_form X n (repeat_last n row)) srs) = None"
    and "k = nbRows - i" and "i \<le> nbRows"
    and "length (st_fs st) = nbRows" and "length (st_lfs st) = nbRows" and "length (st_lts st) = nbRows"
  shows "rows_loop X srs n f t i nbRows st =
           Inr (None, st\<lparr>
             st_fs := take i (st_fs st)
                        @ map (\<lambda>row. fst (Commit X (coefficient_form X n (repeat_last n row)) srs)) (drop i f),
             st_lfs := take i (st_lfs st) @ map (repeat_last n) (drop i f),
             st_committed := st_committed st
                        @ map (\<lambda>row. coefficient_form X n (repeat_last n row)) (drop i f),
             st_lts := take i (st_lts st) @ map (repeat_last n) (drop i t)\<rparr>)"
  using assms(6-10)
proof (induction k arbitrary: i st)
  case 0
  then have i: "i = nbRows" by simp
  have "rows_loop X srs n f t i nbRows st = Inr (None, st)"
    using i by (subst rows_loop.simps) simp
  then show ?case using i assms(1,2) 0 by simp
next
  case (Suc k)
  then have i: "i < nbRows" by simp
  let ?c = "\<lambda>row. coefficient_form X n (repeat_last n row)"
  let ?d = "\<lambda>row. fst (Commit X (?c row) srs)"
  have fi: "f ! i \<in> set f" and ti: "t ! i \<in> set t" using i assms(1,2) by simp_all
  have pf: "pad_row n (f ! i) = Inr (repeat_last n (f ! i))"
    using assms(3) fi by (intro pad_row_nonempty) auto
  have pt: "pad_row n (t ! i) = Inr (repeat_last n (t ! i))"
    using assms(4) ti by (intro pad_row_nonempty) auto
  have cm: "snd (Commit X (?c (f ! i)) srs) = None" using assms(5) fi by blast
  let ?st = "st\<lparr>st_fs := (st_fs st)[i := ?d (f ! i)],
                 st_lfs := (st_lfs st)[i := repeat_last n (f ! i)],
                 st_committed := st_committed st @ [?c (f ! i)],
                 st_lts := (st_lts st)[i := repeat_last n (t ! i)]\<rparr>"
  have step: "rows_loop X srs n f t i nbRows st = rows_loop X srs n f t (Suc i) nbRows ?st"
    using rows_loop_step[OF i pf cm pt] .
  have df: "drop i f = f ! i # drop (Suc i) f" using i assms(1) by (simp add: Cons_nth_drop_Suc)
  have dt: "drop i t = t ! i # drop (Suc i) t" using i assms(2) by (simp add: Cons_nth_drop_Suc)
  have ih: "rows_loop X srs n f t (Suc i) nbRows ?st =
           Inr (None, ?st\<lparr>
             st_fs := take (Suc i) (st_fs ?st) @ map ?d (drop (Suc i) f),
             st_lfs := take (Suc i) (st_lfs ?st) @ map (repeat_last n) (drop (Suc i) f),
             st_committed := st_committed ?st @ map ?c (drop (Suc i) f),
             st_lts := take (Suc i) (st_lts ?st) @ map (repeat_last n) (drop (Suc i) t)\<rparr>)"
    using Suc.prems i by (intro Suc.IH) simp_all
  show ?case unfolding step ih using i Suc.prems df dt
    by (simp add: take_Suc_conv_app_nth)
qed

lemma rows_loop_from_start:
  assumes "length f = nbRows" and "length t = nbRows"
    and "\<forall>row \<in> set f. row \<noteq> [] \<and> length row \<le> n"
    and "\<forall>row \<in> set t. row \<noteq> [] \<and> length row \<le> n"
    and "\<forall>row \<in> set f. snd (Commit X (coefficient_form X n (repeat_last n row)) srs) = None"
  shows "rows_loop X srs n f t 0 nbRows
           \<lparr>st_fs = replicate nbRows z, st_lfs = replicate nbRows [],
            st_lts = replicate nbRows [], st_committed = []\<rparr> =
         Inr (None,
           \<lparr>st_fs = map (\<lambda>row. fst (Commit X (coefficient_form X n (repeat_last n row)) srs)) f,
            st_lfs = map (repeat_last n) f,
            st_lts = map (repeat_last n) t,
            st_committed = map (\<lambda>row. coefficient_form X n (repeat_last n row)) f\<rparr>)"
  using rows_loop_completes[OF assms refl, of 0
          "\<lparr>st_fs = replicate nbRows z, st_lfs = replicate nbRows [],
            st_lts = replicate nbRows [], st_committed = []\<rparr>"]
  by simp

lemma rows_loop_empty_f_row:
  assumes "0 < nbRows" and "f ! 0 = []" and "0 < n"
  shows "rows_loop X srs n f t 0 nbRows st = Inl IndexOutOfRange"
  using assms by (subst rows_loop.simps) (simp add: pad_row_empty)

lemma rows_loop_empty_t_row:
  assumes "0 < nbRows" and "f ! 0 \<noteq> []" and "length (f ! 0) \<le> n" and "t ! 0 = []" and "0 < n"
    and "snd (Commit X (coefficient_form X n (repeat_last n (f ! 0))) srs) = None"
  shows "rows_loop X srs n f t 0 nbRows st = Inl IndexOutOfRange"
  using assms by (subst rows_loop.simps) (simp add: pad_row_empty pad_row_nonempty Let_def)

lemma ProveLookupTables_mismatch:
  assumes "length f \<noteq> length t \<or> (\<exists>i < length f. length (f ! i) \<noteq> length (f ! 0))
           \<or> (\<exists>i < length t. length (t ! i) \<noteq> length (t ! 0))"
  shows "ProveLookupTables X srs f t =
           Inr (\<lparr>fs = [], foldedProof = zero_ProofLookupVector X\<rparr>, Some ErrIncompatibleSize, [])"
proof (cases "length f \<noteq> length t")
  case True
  then show ?thesis by (simp add: ProveLookupTables_def)
next
  case False
  then have len: "length f = length t" by simp
  from assms False have "(\<exists>i < length f. length (f ! i) \<noteq> length (f ! 0))
           \<or> (\<exists>i < length t. length (t ! i) \<noteq> length (t ! 0))" by simp
  then have ne: "f \<noteq> []" using len by auto
  from assms False have "rows_differ (length (f ! 0)) (drop 1 f) \<or> rows_differ (length (t ! 0)) (drop 1 t)"
    by (simp only: rows_differ_drop) simp
  then show ?thesis using len ne by (auto simp: ProveLookupTables_def Let_def)
qed

lemma ProveLookupTables_no_mismatch:
  assumes "\<not> (length f \<noteq> length t \<or> (\<exists>i < length f. length (f ! i) \<noteq> length (f ! 0))
           \<or> (\<exists>i < length t. length (t ! i) \<noteq> length (t ! 0)))"
  shows "ProveLookupTables X srs f t \<noteq> Inr (p, Some ErrIncompatibleSize, c)"
proof -
  from assms have len: "length f = length t"
    and rf: "\<not> rows_differ (length (f ! 0)) (drop 1 f)"
    and rt: "\<not> rows_differ (length (t ! 0)) (drop 1 t)"
    by (simp_all only: rows_differ_drop) simp_all
  show ?thesis
    unfolding ProveLookupTables_def Let_def using len rf rt
    by (auto split: sum.splits prod.splits option.splits)
qed

lemma rows_same_length:
  assumes "\<forall>row \<in> set f. length row = s"
  shows "\<not> rows_differ (length (f ! 0)) (drop 1 f)"
proof (cases f)
  case Nil
  then show ?thesis by simp
next
  case (Cons r rs)
  then show ?thesis using assms by (simp add: rows_differ_iff)
qed

lemma ProveLookupTables_run_rows:
  assumes "length f = length t" and "f \<noteq> []"
    and "\<not> rows_differ (length (f ! 0)) (drop 1 f)" and "\<not> rows_differ (length (t ! 0)) (drop 1 t)"
    and "rows_loop X srs (domain_Cardinality (if length (f ! 0) + 1 < length (t ! 0) then length (t ! 0)
                           else length (f ! 0) + 1)) f t 0 (length t)
           \<lparr>st_fs = replicate (length t) (zero_Digest X), st_lfs = replicate (length t) [],
            st_lts = replicate (length t) [], st_committed = []\<rparr> = Inl p"
  shows "ProveLookupTables X srs f t = Inl p"
  unfolding ProveLookupTables_def Let_def using assms by simp

lemma deriveRandomness_int_services:
  "deriveRandomness int_services (NewTranscript int_services ''lambda'') ''lambda'' ds = (3, None)"
proof -
  have "snd (bind_points int_services ts ''lambda'' ds) = None" for ts
    by (induction ds arbitrary: ts) (simp_all add: int_services_def)
  then show ?thesis
    by (simp add: deriveRandomness_def int_services_def be_nat_def split: prod.splits option.splits)
       (metis snd_conv option.distinct(1))
qed

lemma ProveLookupTables_empty_f_rows:
  assumes "f \<noteq> []" and "length f = length t" and "\<forall>row \<in> set f. row = []"
    and "\<forall>row \<in> set t. length row = length (t ! 0)"
  shows "ProveLookupTables X srs f t = Inl IndexOutOfRange"
proof -
  have f0: "f ! 0 = []" using assms(1,3) by (cases f) auto
  have rf: "\<not> rows_differ (length (f ! 0)) (drop 1 f)"
    using assms(3) by (intro rows_same_length[of f 0]) simp
  have rt: "\<not> rows_differ (length (t ! 0)) (drop 1 t)"
    using assms(4) by (rule rows_same_length)
  have pos: "0 < length t" using assms(1,2) by auto
  show ?thesis
    using assms(2,1) rf rt
    by (rule ProveLookupTables_run_rows) (rule rows_loop_empty_f_row[OF pos f0 domain_Cardinality_pos])
qed

lemma ProveLookupTables_empty_t_rows:
  assumes "f \<noteq> []" and "length f = length t" and "f ! 0 \<noteq> []"
    and "\<forall>row \<in> set f. length row = length (f ! 0)" and "\<forall>row \<in> set t. row = []"
    and "snd (Commit X (coefficient_form X (domain_Cardinality (length (f ! 0) + 1))
                  (repeat_last (domain_Cardinality (length (f ! 0) + 1)) (f ! 0))) srs) = None"
  shows "ProveLookupTables X srs f t = Inl IndexOutOfRange"
proof -
  let ?n = "domain_Cardinality (length (f ! 0) + 1)"
  have t_ne: "t \<noteq> []" using assms(1,2) by auto
  then have t0: "t ! 0 = []" using assms(5) by (cases t) auto
  have rf: "\<not> rows_differ (length (f ! 0)) (drop 1 f)"
    using assms(4) by (rule rows_same_length)
  have rt: "\<not> rows_differ (length (t ! 0)) (drop 1 t)"
    using assms(5) by (intro rows_same_length[of t 0]) simp
  have pos: "0 < length t" using t_ne by simp
  have le: "length (f ! 0) \<le> ?n" using domain_Cardinality_ge[of "length (f ! 0) + 1"] by simp
  have cols: "(if length (f ! 0) + 1 < length (t ! 0) then length (t ! 0) else length (f ! 0) + 1)
                = length (f ! 0) + 1" by (simp add: t0)
  have loop: "rows_loop X srs ?n f t 0 (length t) st = Inl IndexOutOfRange" for st
    using pos assms(3) le t0 domain_Cardinality_pos assms(6) by (rule rows_loop_empty_t_row)
  show ?thesis
    using assms(2,1) rf rt
    by (rule ProveLookupTables_run_rows) (simp only: cols loop)
qed

lemma first_row_empty_mismatch:
  assumes "f \<noteq> []" and "length f = length t" and "f ! 0 = []" and "\<exists>row \<in> set f. row \<noteq> []"
  shows "ProveLookupTables X srs f t =
           Inr (\<lparr>fs = [], foldedProof = zero_ProofLookupVector X\<rparr>, Some ErrIncompatibleSize, [])"
proof -
  from assms(4) obtain i where "i < length f" "f ! i \<noteq> []" by (auto simp: in_set_conv_nth)
  then have "\<exists>i < length f. length (f ! i) \<noteq> length (f ! 0)" using assms(3) by auto
  then show ?thesis by (intro ProveLookupTables_mismatch) simp
qed

lemma VerifyLookupTables_empty:
  assumes "fs pr = []" and "snd (deriveRandomness X (NewTranscript X ''lambda'') ''lambda'' []) = None"
  shows "VerifyLookupTables X srs pr = Inl IndexOutOfRange"
  using assms unfolding VerifyLookupTables_def Let_def
  by (cases "deriveRandomness X (NewTranscript X ''lambda'') ''lambda'' []") simp

lemma domain_Cardinality_3: "domain_Cardinality 3 = 4"
  by (simp add: domain_Cardinality_def next_power_of_two.simps)

section \<open>Properties of the multi-column lookup\<close>

text \<open>
  C3. The folding loops of the prover compute, for every column \<open>j\<close>, the sum of
  \<open>lambda ^ i * lfs[i][j]\<close> over the rows \<open>i\<close>, and the same over \<open>lts\<close>; with a single row the
  fold returns row 0 unchanged. The rows have \<open>nbColumns\<close> entries each, as
  \<open>ProveLookupTables\<close> allocates them.
\<close>

theorem fold_tables_power_sum:
  assumes "1 \<le> nbRows" and "length lfs = nbRows" and "length lts = nbRows"
    and "\<forall>row \<in> set lfs. length row = nbColumns" and "\<forall>row \<in> set lts. length row = nbColumns"
  shows "length (fst (fold_tables lam nbColumns nbRows lfs lts)) = nbColumns
     \<and> length (snd (fold_tables lam nbColumns nbRows lfs lts)) = nbColumns
     \<and> (\<forall>j < nbColumns.
           fst (fold_tables lam nbColumns nbRows lfs lts) ! j = (\<Sum>i<nbRows. lam ^ i * lfs ! i ! j)
         \<and> snd (fold_tables lam nbColumns nbRows lfs lts) ! j = (\<Sum>i<nbRows. lam ^ i * lts ! i ! j))
     \<and> (nbRows = 1 \<longrightarrow> fst (fold_tables lam nbColumns nbRows lfs lts) = lfs ! 0
                       \<and> snd (fold_tables lam nbColumns nbRows lfs lts) = lts ! 0)"
proof (intro conjI allI impI)
  show "length (fst (fold_tables lam nbColumns nbRows lfs lts)) = nbColumns"
    and "length (snd (fold_tables lam nbColumns nbRows lfs lts)) = nbColumns"
    by (simp_all add: fold_tables_eq)
next
  fix j assume "j < nbColumns"
  then show "fst (fold_tables lam nbColumns nbRows lfs lts) ! j = (\<Sum>i<nbRows. lam ^ i * lfs ! i ! j)"
    and "snd (fold_tables lam nbColumns nbRows lfs lts) ! j = (\<Sum>i<nbRows. lam ^ i * lts ! i ! j)"
    by (simp_all add: fold_tables_eq)
next
  assume one: "nbRows = 1"
  have "length (lfs ! 0) = nbColumns" using assms(2,4) one by (cases lfs) auto
  then show "fst (fold_tables lam nbColumns nbRows lfs lts) = lfs ! 0"
    by (intro nth_equalityI) (simp_all add: fold_tables_eq one)
  have "length (lts ! 0) = nbColumns" using assms(3,5) one by (cases lts) auto
  then show "snd (fold_tables lam nbColumns nbRows lfs lts) = lts ! 0"
    by (intro nth_equalityI) (simp_all add: fold_tables_eq one)
qed

theorem fold_tables_power_sum_witness:
  "fst (fold_tables (3::int) 2 2 [[1, 2], [4, 5]] [[0, 1], [1, 0]]) ! 0 = 13
   \<and> fst (fold_tables (3::int) 2 2 [[1, 2], [4, 5]] [[0, 1], [1, 0]]) ! 1 = 17
   \<and> snd (fold_tables (3::int) 2 2 [[1, 2], [4, 5]] [[0, 1], [1, 0]]) ! 0 = 3
   \<and> fst (fold_tables (7::int) 2 1 [[1, 2]] [[0, 1]]) = [1, 2]"
proof -
  have two: "{..<2::nat} = {0, 1}" by auto
  have a: "(1::nat) \<le> 2" "length [[1, 2], [4, 5::int]] = 2" "length [[0, 1], [1, 0::int]] = 2"
    "\<forall>row \<in> set [[1, 2], [4, 5::int]]. length row = 2"
    "\<forall>row \<in> set [[0, 1], [1, 0::int]]. length row = 2" by simp_all
  have b: "(1::nat) \<le> 1" "length [[1, 2::int]] = 1" "length [[0, 1::int]] = 1"
    "\<forall>row \<in> set [[1, 2::int]]. length row = 2" "\<forall>row \<in> set [[0, 1::int]]. length row = 2"
    by simp_all
  show ?thesis
    using fold_tables_power_sum[OF a, of 3] fold_tables_power_sum[OF b, of 7]
    by (simp add: two)
qed

text \<open>
  C2. For a proof with at least one commitment, once the challenge has been derived,
  \<open>VerifyLookupTables\<close> folds the commitments by Horner's rule from the last one on,
  with the challenge lowered to its big integer; it returns \<open>ErrFoldedCommitment\<close>
  exactly when the folded commitment differs from the commitment \<open>f\<close> of the inner
  proof, and what \<open>VerifyLookupVector\<close> returns on the inner proof otherwise.
\<close>

theorem VerifyLookupTables_fold:
  assumes "fs pr \<noteq> []"
    and "deriveRandomness X (NewTranscript X ''lambda'') ''lambda'' (fs pr) = (lam, None)"
  shows "VerifyLookupTables X srs pr =
           Inr (if horner_digest X (ToBigIntRegular X lam) (fs pr) \<noteq> proof_f X (foldedProof pr)
                then Some ErrFoldedCommitment
                else map_option Upstream (VerifyLookupVector X srs (foldedProof pr)))
       \<and> (VerifyLookupTables X srs pr = Inr (Some ErrFoldedCommitment)
            \<longleftrightarrow> horner_digest X (ToBigIntRegular X lam) (fs pr) \<noteq> proof_f X (foldedProof pr))"
proof -
  have n: "\<not> int (length (fs pr)) - 1 < 0" using assms(1) by (cases "fs pr") simp_all
  have "VerifyLookupTables X srs pr =
           Inr (if horner_digest X (ToBigIntRegular X lam) (fs pr) \<noteq> proof_f X (foldedProof pr)
                then Some ErrFoldedCommitment
                else map_option Upstream (VerifyLookupVector X srs (foldedProof pr)))"
    unfolding VerifyLookupTables_def Let_def
    using assms(2) n verify_fold_from_last[OF assms(1), of X "ToBigIntRegular X lam"]
    by simp
  moreover have "map_option Upstream (VerifyLookupVector X srs (foldedProof pr)) \<noteq> Some ErrFoldedCommitment"
    by (cases "VerifyLookupVector X srs (foldedProof pr)") simp_all
  ultimately show ?thesis by simp
qed

theorem VerifyLookupTables_fold_witness:
  "VerifyLookupTables int_services () \<lparr>fs = [2, 5], foldedProof = 17\<rparr> = Inr None
   \<and> VerifyLookupTables int_services () \<lparr>fs = [3, 5], foldedProof = 17\<rparr> = Inr (Some ErrFoldedCommitment)"
proof -
  have d: "deriveRandomness int_services (NewTranscript int_services ''lambda'') ''lambda'' ds = (3, None)" for ds
  proof -
    have "snd (bind_points int_services ts ''lambda'' ds) = None" for ts
      by (induction ds arbitrary: ts) (simp_all add: int_services_def)
    then show ?thesis
      by (simp add: deriveRandomness_def int_services_def be_nat_def split: prod.splits option.splits) (metis snd_conv option.distinct(1))
  qed
  have a: "fs \<lparr>fs = [2, 5::int], foldedProof = 17::int\<rparr> \<noteq> []"
    and b: "fs \<lparr>fs = [3, 5::int], foldedProof = 17::int\<rparr> \<noteq> []" by simp_all
  show ?thesis
    using VerifyLookupTables_fold[OF a, of int_services 3 "()"]
          VerifyLookupTables_fold[OF b, of int_services 3 "()"] d
    by (simp add: int_services_def)
qed

text \<open>
  C5. \<open>ProveLookupTables\<close> returns \<open>ErrIncompatibleSize\<close> exactly when \<open>f\<close> and \<open>t\<close> differ in
  their number of rows, or a row of \<open>f\<close> differs in length from the first row of \<open>f\<close>, or a
  row of \<open>t\<close> from the first row of \<open>t\<close>; the proof it returns then has no commitments, and
  nothing has been committed.
\<close>

theorem ProveLookupTables_incompatible_size:
  "((\<exists>p c. ProveLookupTables X srs f t = Inr (p, Some ErrIncompatibleSize, c))
      \<longleftrightarrow> (length f \<noteq> length t \<or> (\<exists>i < length f. length (f ! i) \<noteq> length (f ! 0))
           \<or> (\<exists>i < length t. length (t ! i) \<noteq> length (t ! 0))))
   \<and> (\<forall>p c. ProveLookupTables X srs f t = Inr (p, Some ErrIncompatibleSize, c)
         \<longrightarrow> fs p = [] \<and> c = [])"
proof (cases "length f \<noteq> length t \<or> (\<exists>i < length f. length (f ! i) \<noteq> length (f ! 0))
           \<or> (\<exists>i < length t. length (t ! i) \<noteq> length (t ! 0))")
  case True
  from ProveLookupTables_mismatch[OF True, of X srs] show ?thesis using True by auto
next
  case False
  from ProveLookupTables_no_mismatch[OF False, of X srs] show ?thesis using False by auto
qed

theorem ProveLookupTables_incompatible_size_witness:
  "ProveLookupTables int_services () [[1, 2], [3, 4], [5, 6]] [[1, 2], [3, 4]]
     = Inr (\<lparr>fs = [], foldedProof = 0\<rparr>, Some ErrIncompatibleSize, [])
   \<and> ProveLookupTables int_services () [[1, 2], [3]] [[1, 2], [3, 4]]
     = Inr (\<lparr>fs = [], foldedProof = 0\<rparr>, Some ErrIncompatibleSize, [])
   \<and> ProveLookupTables int_services () [[1], [2]] [[1, 5, 9], [2, 6, 7]]
     \<noteq> Inr (\<lparr>fs = [], foldedProof = 0\<rparr>, Some ErrIncompatibleSize, [])"
proof -
  have a: "length [[1, 2], [3, 4], [5, 6::int]] \<noteq> length [[1, 2], [3, 4::int]]" by simp
  have b: "\<exists>i < length [[1, 2], [3::int]]. length ([[1, 2], [3::int]] ! i) \<noteq> length ([[1, 2], [3::int]] ! 0)"
    by (rule exI[of _ 1]) simp
  have c: "\<not> (length [[1], [2::int]] \<noteq> length [[1, 5, 9], [2, 6, 7::int]]
      \<or> (\<exists>i < length [[1], [2::int]]. length ([[1], [2::int]] ! i) \<noteq> length ([[1], [2::int]] ! 0))
      \<or> (\<exists>i < length [[1, 5, 9], [2, 6, 7::int]].
            length ([[1, 5, 9], [2, 6, 7::int]] ! i) \<noteq> length ([[1, 5, 9], [2, 6, 7::int]] ! 0)))"
  proof -
    have "\<forall>row \<in> set [[1], [2::int]]. length row = length ([[1], [2::int]] ! 0)"
      and "\<forall>row \<in> set [[1, 5, 9], [2, 6, 7::int]]. length row = length ([[1, 5, 9], [2, 6, 7::int]] ! 0)"
      by simp_all
    then have "\<forall>i < length [[1], [2::int]]. length ([[1], [2::int]] ! i) = length ([[1], [2::int]] ! 0)"
      and "\<forall>i < length [[1, 5, 9], [2, 6, 7::int]].
            length ([[1, 5, 9], [2, 6, 7::int]] ! i) = length ([[1, 5, 9], [2, 6, 7::int]] ! 0)"
      unfolding all_set_conv_all_nth by blast+
    then show ?thesis by simp
  qed
  note t1 = ProveLookupTables_incompatible_size[of int_services "()" "[[1, 2], [3, 4], [5, 6]]" "[[1, 2], [3, 4]]"]
  note t2 = ProveLookupTables_incompatible_size[of int_services "()" "[[1, 2], [3]]" "[[1, 2], [3, 4]]"]
  note t3 = ProveLookupTables_incompatible_size[of int_services "()" "[[1], [2]]" "[[1, 5, 9], [2, 6, 7]]"]
  from t1 a obtain p1 c1 where
    "ProveLookupTables int_services () [[1, 2], [3, 4], [5, 6]] [[1, 2], [3, 4]] = Inr (p1, Some ErrIncompatibleSize, c1)"
    "fs p1 = []" "c1 = []" by blast
  moreover from t2 b obtain p2 c2 where
    "ProveLookupTables int_services () [[1, 2], [3]] [[1, 2], [3, 4]] = Inr (p2, Some ErrIncompatibleSize, c2)"
    "fs p2 = []" "c2 = []" by blast
  moreover from t3 c have
    "ProveLookupTables int_services () [[1], [2]] [[1, 5, 9], [2, 6, 7]]
       \<noteq> Inr (\<lparr>fs = [], foldedProof = 0\<rparr>, Some ErrIncompatibleSize, [])" by blast
  moreover have "ProveLookupTables int_services () [[1, 2], [3, 4], [5, 6]] [[1, 2], [3, 4]]
     = Inr (\<lparr>fs = [], foldedProof = 0\<rparr>, Some ErrIncompatibleSize, [])"
    by (simp add: ProveLookupTables_def int_services_def)
  moreover have "ProveLookupTables int_services () [[1, 2], [3]] [[1, 2], [3, 4]]
     = Inr (\<lparr>fs = [], foldedProof = 0\<rparr>, Some ErrIncompatibleSize, [])"
    by (simp add: ProveLookupTables_def int_services_def)
  ultimately show ?thesis by simp
qed

text \<open>
  C4. For tables of compatible sizes with non-empty rows of lengths \<open>s_f\<close> and \<open>s_t\<close>,
  when every commitment and the derivation of the challenge succeed: the number of
  columns \<open>n\<close> is the least power of two that is at least \<open>max (s_f + 1) s_t\<close> (the one of
  \<open>s_t\<close> when \<open>s_t > s_f + 1\<close>), every row is padded to \<open>n\<close> entries by repeating its last
  element, and the inner prover is called on the first \<open>n - 1\<close> entries of the folded
  query and on the whole folded table.
\<close>

theorem ProveLookupTables_columns:
  assumes "f \<noteq> []" and "length f = length t"
    and "\<forall>row \<in> set f. length row = s_f" and "\<forall>row \<in> set t. length row = s_t"
    and "1 \<le> s_f" and "1 \<le> s_t"
    and "n = domain_Cardinality (max (s_f + 1) s_t)"
    and "\<forall>row \<in> set f. snd (Commit X (coefficient_form X n (repeat_last n row)) srs) = None"
    and "deriveRandomness X (NewTranscript X ''lambda'') ''lambda''
           (map (\<lambda>row. fst (Commit X (coefficient_form X n (repeat_last n row)) srs)) f) = (lam, None)"
  shows "(\<exists>k. n = 2 ^ k) \<and> max (s_f + 1) s_t \<le> n
       \<and> (\<forall>j. max (s_f + 1) s_t \<le> 2 ^ j \<longrightarrow> n \<le> 2 ^ j)
       \<and> (s_f + 1 < s_t \<longrightarrow> n = domain_Cardinality s_t)
       \<and> (\<forall>row \<in> set f \<union> set t. length (repeat_last n row) = n)
       \<and> length (fst (fold_tables lam n (length f) (map (repeat_last n) f) (map (repeat_last n) t))) = n
       \<and> length (snd (fold_tables lam n (length f) (map (repeat_last n) f) (map (repeat_last n) t))) = n
       \<and> ProveLookupTables X srs f t =
           (let folded = fold_tables lam n (length f) (map (repeat_last n) f) (map (repeat_last n) t);
                inner = ProveLookupVector X srs (take (n - 1) (fst folded)) (snd folded)
            in Inr (\<lparr>fs = map (\<lambda>row. fst (Commit X (coefficient_form X n (repeat_last n row)) srs)) f,
                     foldedProof = fst inner\<rparr>,
                    map_option Upstream (snd inner),
                    map (\<lambda>row. coefficient_form X n (repeat_last n row)) f))"
proof -
  let ?target = "max (s_f + 1) s_t"
  from domain_Cardinality_spec[of ?target] obtain k where
    "domain_Cardinality ?target = 2 ^ k" and "?target \<le> 2 ^ k"
    and "\<forall>j. ?target \<le> 2 ^ j \<longrightarrow> domain_Cardinality ?target \<le> 2 ^ j"
    by blast
  then have k: "n = 2 ^ k" and ge: "?target \<le> n"
    and least: "\<forall>j. ?target \<le> 2 ^ j \<longrightarrow> n \<le> 2 ^ j"
    by (simp_all add: assms(7))
  have t_ne: "t \<noteq> []" using assms(1,2) by auto
  have f0: "length (f ! 0) = s_f" using assms(1,3) by (cases f) auto
  have t0: "length (t ! 0) = s_t" using t_ne assms(4) by (cases t) auto
  have cols: "(if length (f ! 0) + 1 < length (t ! 0) then length (t ! 0) else length (f ! 0) + 1) = ?target"
    unfolding f0 t0 by (simp add: max_def)
  have big: "s_f + 1 < s_t \<longrightarrow> n = domain_Cardinality s_t"
    unfolding assms(7) by (simp add: max_def)
  have frows: "\<forall>row \<in> set f. row \<noteq> [] \<and> length row \<le> n"
    using assms(3,5) ge by auto
  have trows: "\<forall>row \<in> set t. row \<noteq> [] \<and> length row \<le> n"
    using assms(4,6) ge by auto
  have padded: "\<forall>row \<in> set f \<union> set t. length (repeat_last n row) = n"
    using frows trows by (auto simp: length_repeat_last)
  have loop: "rows_loop X srs n f t 0 (length t)
           \<lparr>st_fs = replicate (length t) (zero_Digest X), st_lfs = replicate (length t) [],
            st_lts = replicate (length t) [], st_committed = []\<rparr> =
         Inr (None,
           \<lparr>st_fs = map (\<lambda>row. fst (Commit X (coefficient_form X n (repeat_last n row)) srs)) f,
            st_lfs = map (repeat_last n) f,
            st_lts = map (repeat_last n) t,
            st_committed = map (\<lambda>row. coefficient_form X n (repeat_last n row)) f\<rparr>)"
    using assms(2) frows trows assms(8) by (intro rows_loop_from_start) simp_all
  have lens: "length (fst (fold_tables lam n (length f) (map (repeat_last n) f) (map (repeat_last n) t))) = n"
    "length (snd (fold_tables lam n (length f) (map (repeat_last n) f) (map (repeat_last n) t))) = n"
    by (simp_all add: fold_tables_eq)
  have run: "ProveLookupTables X srs f t =
           (let folded = fold_tables lam n (length f) (map (repeat_last n) f) (map (repeat_last n) t);
                inner = ProveLookupVector X srs (take (n - 1) (fst folded)) (snd folded)
            in Inr (\<lparr>fs = map (\<lambda>row. fst (Commit X (coefficient_form X n (repeat_last n row)) srs)) f,
                     foldedProof = fst inner\<rparr>,
                    map_option Upstream (snd inner),
                    map (\<lambda>row. coefficient_form X n (repeat_last n row)) f))"
    unfolding ProveLookupTables_def Let_def cols assms(7)[symmetric]
    using assms(1,2) rows_same_length[OF assms(3)] rows_same_length[OF assms(4)] loop assms(9) lens
    by simp
  show ?thesis using k ge least big padded lens run by blast
qed

theorem ProveLookupTables_columns_witness:
  "domain_Cardinality (max (1 + 1) 3) = 4
   \<and> ProveLookupTables int_services () [[1], [2]] [[1, 5, 9], [2, 6, 7]]
       = Inr (\<lparr>fs = [4, 8], foldedProof = 28\<rparr>, None, [[1, 1, 1, 1], [2, 2, 2, 2]])
   \<and> fold_tables (3::int) 4 2 (map (repeat_last 4) [[1], [2]]) (map (repeat_last 4) [[1, 5, 9], [2, 6, 7]])
       = ([7, 7, 7, 7], [7, 23, 30, 30])"
proof -
  let ?f = "[[1], [2::int]]" and ?t = "[[1, 5, 9], [2, 6, 7::int]]"
  have "max (1 + 1) (3::nat) = 3" by simp
  then have n: "(4::nat) = domain_Cardinality (max (1 + 1) 3)" by (simp only: domain_Cardinality_3)
  have two: "{..<2::nat} = {0, 1}" by auto
  have pf: "map (repeat_last 4) ?f = [[1, 1, 1, 1], [2, 2, 2, 2]]"
    and pt: "map (repeat_last 4) ?t = [[1, 5, 9, 9], [2, 6, 7, 7]]"
    by (simp_all add: repeat_last_def numeral_eq_Suc)
  have len2: "length ?f = 2" by simp
  have folded: "fold_tables (3::int) 4 2 (map (repeat_last 4) ?f) (map (repeat_last 4) ?t)
       = ([7, 7, 7, 7], [7, 23, 30, 30])"
    unfolding pf pt by (simp add: fold_tables_eq upt_4 two)
  have h: "?f \<noteq> []" "length ?f = length ?t" "\<forall>row \<in> set ?f. length row = 1"
    "\<forall>row \<in> set ?t. length row = 3" "(1::nat) \<le> 1" "(1::nat) \<le> 3" by simp_all
  have c: "\<forall>row \<in> set ?f. snd (Commit int_services (coefficient_form int_services 4 (repeat_last 4 row)) ()) = None"
    by (simp add: int_services_def)
  note d = deriveRandomness_int_services[of "map (\<lambda>row. fst (Commit int_services
              (coefficient_form int_services 4 (repeat_last 4 row)) ())) ?f"]
  from ProveLookupTables_columns[OF h n c d]
  have "ProveLookupTables int_services () ?f ?t =
           (let folded = fold_tables 3 4 (length ?f) (map (repeat_last 4) ?f) (map (repeat_last 4) ?t);
                inner = ProveLookupVector int_services () (take (4 - 1) (fst folded)) (snd folded)
            in Inr (\<lparr>fs = map (\<lambda>row. fst (Commit int_services (coefficient_form int_services 4 (repeat_last 4 row)) ())) ?f,
                     foldedProof = fst inner\<rparr>,
                    map_option Upstream (snd inner),
                    map (\<lambda>row. coefficient_form int_services 4 (repeat_last 4 row)) ?f))"
    by blast
  also have "\<dots> = Inr (\<lparr>fs = [4, 8], foldedProof = 28\<rparr>, None, [[1, 1, 1, 1], [2, 2, 2, 2]])"
    unfolding len2 folded Let_def
    by (simp add: int_services_def coefficient_form_def in_place_def go_copy_def repeat_last_def numeral_eq_Suc)
  finally have run: "ProveLookupTables int_services () ?f ?t
       = Inr (\<lparr>fs = [4, 8], foldedProof = 28\<rparr>, None, [[1, 1, 1, 1], [2, 2, 2, 2]])" .
  show ?thesis using n[symmetric] run folded by (intro conjI)
qed

text \<open>
  C10, as the code has it. The degenerate shapes of compatible size are not guarded.
  \<open>ProveLookupTables\<close> panics on an index out of range when called with no rows at all,
  when all the rows of \<open>f\<close> are empty, and when all the rows of \<open>t\<close> are empty (once the
  first row of \<open>f\<close> has been committed); so does \<open>VerifyLookupTables\<close> on a proof without
  commitments, once the challenge has been derived. When the first row of \<open>f\<close> is empty
  and another row of \<open>f\<close> is not, the size check comes first and \<open>ErrIncompatibleSize\<close> is
  returned.
\<close>

theorem degenerate_shapes_panic:
  "ProveLookupTables X srs [] [] = Inl IndexOutOfRange
   \<and> (f \<noteq> [] \<and> length f = length t \<and> (\<forall>row \<in> set f. row = [])
        \<and> (\<forall>row \<in> set t. length row = length (t ! 0))
      \<longrightarrow> ProveLookupTables X srs f t = Inl IndexOutOfRange)
   \<and> (f \<noteq> [] \<and> length f = length t \<and> f ! 0 \<noteq> [] \<and> (\<forall>row \<in> set f. length row = length (f ! 0))
        \<and> (\<forall>row \<in> set t. row = [])
        \<and> snd (Commit X (coefficient_form X (domain_Cardinality (length (f ! 0) + 1))
                  (repeat_last (domain_Cardinality (length (f ! 0) + 1)) (f ! 0))) srs) = None
      \<longrightarrow> ProveLookupTables X srs f t = Inl IndexOutOfRange)
   \<and> (fs pr = [] \<and> snd (deriveRandomness X (NewTranscript X ''lambda'') ''lambda'' []) = None
      \<longrightarrow> VerifyLookupTables X srs pr = Inl IndexOutOfRange)
   \<and> (f \<noteq> [] \<and> length f = length t \<and> f ! 0 = [] \<and> (\<exists>row \<in> set f. row \<noteq> [])
      \<longrightarrow> ProveLookupTables X srs f t =
            Inr (\<lparr>fs = [], foldedProof = zero_ProofLookupVector X\<rparr>, Some ErrIncompatibleSize, []))"
proof (intro conjI impI)
  show "ProveLookupTables X srs [] [] = Inl IndexOutOfRange"
    by (simp add: ProveLookupTables_def)
next
  assume "f \<noteq> [] \<and> length f = length t \<and> (\<forall>row \<in> set f. row = [])
        \<and> (\<forall>row \<in> set t. length row = length (t ! 0))"
  then show "ProveLookupTables X srs f t = Inl IndexOutOfRange"
    by (intro ProveLookupTables_empty_f_rows) simp_all
next
  assume "f \<noteq> [] \<and> length f = length t \<and> f ! 0 \<noteq> [] \<and> (\<forall>row \<in> set f. length row = length (f ! 0))
        \<and> (\<forall>row \<in> set t. row = [])
        \<and> snd (Commit X (coefficient_form X (domain_Cardinality (length (f ! 0) + 1))
                  (repeat_last (domain_Cardinality (length (f ! 0) + 1)) (f ! 0))) srs) = None"
  then show "ProveLookupTables X srs f t = Inl IndexOutOfRange"
    by (intro ProveLookupTables_empty_t_rows) simp_all
next
  assume "fs pr = [] \<and> snd (deriveRandomness X (NewTranscript X ''lambda'') ''lambda'' []) = None"
  then show "VerifyLookupTables X srs pr = Inl IndexOutOfRange"
    by (intro VerifyLookupTables_empty) simp_all
next
  assume "f \<noteq> [] \<and> length f = length t \<and> f ! 0 = [] \<and> (\<exists>row \<in> set f. row \<noteq> [])"
  then show "ProveLookupTables X srs f t =
            Inr (\<lparr>fs = [], foldedProof = zero_ProofLookupVector X\<rparr>, Some ErrIncompatibleSize, [])"
    by (intro first_row_empty_mismatch) simp_all
qed

theorem degenerate_shapes_panic_witness:
  "ProveLookupTables int_services () [] [] = Inl IndexOutOfRange
   \<and> ProveLookupTables int_services () [[], []] [[1, 2], [3, 4]] = Inl IndexOutOfRange
   \<and> ProveLookupTables int_services () [[1, 2], [3, 4]] [[], []] = Inl IndexOutOfRange
   \<and> VerifyLookupTables int_services () \<lparr>fs = [], foldedProof = 0\<rparr> = Inl IndexOutOfRange
   \<and> ProveLookupTables int_services () [[], [5, 6]] [[1, 2], [3, 4]]
       = Inr (\<lparr>fs = [], foldedProof = 0\<rparr>, Some ErrIncompatibleSize, [])"
proof -
  note t1 = degenerate_shapes_panic[of int_services "()" "[[], []]" "[[1, 2], [3, 4]]" "\<lparr>fs = [], foldedProof = 0\<rparr>"]
  note t2 = degenerate_shapes_panic[of int_services "()" "[[1, 2], [3, 4]]" "[[], []]" "\<lparr>fs = [], foldedProof = 0\<rparr>"]
  have c: "snd (Commit int_services xs ()) = None" for xs by (simp add: int_services_def)
  note d = deriveRandomness_int_services[of "[]"]
  have 1: "ProveLookupTables int_services () [] [] = Inl IndexOutOfRange" using t1 by blast
  have 2: "ProveLookupTables int_services () [[], []] [[1, 2], [3, 4]] = Inl IndexOutOfRange"
  proof -
    have "[[], []] \<noteq> [] \<and> length [[], []::int list] = length [[1, 2], [3, 4::int]]
        \<and> (\<forall>row \<in> set [[], []::int list]. row = [])
        \<and> (\<forall>row \<in> set [[1, 2], [3, 4::int]]. length row = length ([[1, 2], [3, 4::int]] ! 0))" by simp
    with t1 show ?thesis by blast
  qed
  have 3: "ProveLookupTables int_services () [[1, 2], [3, 4]] [[], []] = Inl IndexOutOfRange"
  proof -
    have "[[1, 2], [3, 4::int]] \<noteq> [] \<and> length [[1, 2], [3, 4::int]] = length [[], []::int list]
        \<and> [[1, 2], [3, 4::int]] ! 0 \<noteq> []
        \<and> (\<forall>row \<in> set [[1, 2], [3, 4::int]]. length row = length ([[1, 2], [3, 4::int]] ! 0))
        \<and> (\<forall>row \<in> set [[], []::int list]. row = [])
        \<and> snd (Commit int_services (coefficient_form int_services (domain_Cardinality (length ([[1, 2], [3, 4::int]] ! 0) + 1))
                  (repeat_last (domain_Cardinality (length ([[1, 2], [3, 4::int]] ! 0) + 1)) ([[1, 2], [3, 4::int]] ! 0))) ()) = None"
      using c by simp
    with t2 show ?thesis by blast
  qed
  have 4: "VerifyLookupTables int_services () \<lparr>fs = [], foldedProof = 0\<rparr> = Inl IndexOutOfRange"
  proof -
    have "fs \<lparr>fs = []::int list, foldedProof = 0::int\<rparr> = []
       \<and> snd (deriveRandomness int_services (NewTranscript int_services ''lambda'') ''lambda'' []) = None"
      using d by simp
    with t1 show ?thesis by blast
  qed
  have 5: "ProveLookupTables int_services () [[], [5, 6]] [[1, 2], [3, 4]]
       = Inr (\<lparr>fs = [], foldedProof = 0\<rparr>, Some ErrIncompatibleSize, [])"
  proof -
    note t3 = degenerate_shapes_panic[of int_services "()" "[[], [5, 6]]" "[[1, 2], [3, 4]]"
                "\<lparr>fs = [], foldedProof = 0\<rparr>"]
    have "[[], [5, 6::int]] \<noteq> [] \<and> length [[], [5, 6::int]] = length [[1, 2], [3, 4::int]]
        \<and> [[], [5, 6::int]] ! 0 = [] \<and> (\<exists>row \<in> set [[], [5, 6::int]]. row \<noteq> [])" by simp
    with t3 have "ProveLookupTables int_services () [[], [5, 6]] [[1, 2], [3, 4]]
       = Inr (\<lparr>fs = [], foldedProof = zero_ProofLookupVector int_services\<rparr>, Some ErrIncompatibleSize, [])"
      by blast
    then show ?thesis by (simp add: int_services_def)
  qed
  show ?thesis using 1 2 3 4 5 by (intro conjI)
qed

text \<open>
  C10, as the claim states it, fails for a first row of length zero when another row of
  \<open>f\<close> is not empty: with \<open>f = [[], [1]]\<close> and \<open>t = [[1], [2]]\<close> the loop over the rows of \<open>f\<close>
  finds \<open>len(f[1]) != 0\<close> and \<open>ProveLookupTables\<close> returns \<open>ErrIncompatibleSize\<close> without a
  panic, whatever the collaborators are.
\<close>

theorem first_row_empty_is_size_error:
  "\<forall>X srs. ProveLookupTables X srs [[], [1::int]] [[1], [2]] =
      Inr (\<lparr>fs = [], foldedProof = zero_ProofLookupVector X\<rparr>, Some ErrIncompatibleSize, [])"
  by (simp add: ProveLookupTables_def)

end
